theory Spec2Isabelle
  imports Complex_Main "HOL-Library.AList" "HOL-Library.Multiset" "HOL-Library.Log_Nat"
begin

section \<open>GroupDivision: the data model\<close>

text \<open>
  The program divides a list of students into named groups. A Python \<open>dict\<close> keeps its
  keys in insertion order, and the code iterates over \<open>groups.items()\<close>, so a
  dictionary is an association list: \<open>map_of\<close> reads a key, \<open>AList.update\<close> writes
  one (a new key goes to the end, an old key keeps its place).
  Exceptions are values of the type \<open>error\<close>; a function that can raise returns
  \<open>error + 'a\<close>.
\<close>

datatype error = KeyError | IndexError | ZeroDivisionError | AttributeError

type_synonym 'a groups = "(string \<times> 'a list) list"

type_synonym 'a friends = "('a \<times> 'a list) list"

text \<open>\<open>d.get(k, default)\<close>\<close>

definition dict_get :: "('k \<times> 'v) list \<Rightarrow> 'k \<Rightarrow> 'v \<Rightarrow> 'v" where
  "dict_get d k dflt = (case map_of d k of None \<Rightarrow> dflt | Some v \<Rightarrow> v)"

text \<open>\<open>d[k]\<close>, which raises \<open>KeyError\<close> on a missing key\<close>

definition dict_item :: "('k \<times> 'v) list \<Rightarrow> 'k \<Rightarrow> error + 'v" where
  "dict_item d k = (case map_of d k of None \<Rightarrow> Inl KeyError | Some v \<Rightarrow> Inr v)"

text \<open>\<open>str(n)\<close> for a natural number, and the f-string \<open>f"Group{i+1}"\<close>\<close>

fun str_nat :: "nat \<Rightarrow> string" where
  "str_nat n =
     (if n < 10 then [''0123456789'' ! n]
      else str_nat (n div 10) @ [''0123456789'' ! (n mod 10)])"

declare str_nat.simps [simp del]

definition group_name :: "nat \<Rightarrow> string" where
  "group_name i = ''Group'' @ str_nat (i + 1)"

section \<open>assign_students_to_groups\<close>

text \<open>
  \<open>groups = {f"Group{i+1}": [] for i in range(num_groups)}\<close>; \<open>range\<close> of a
  non-positive number is empty.
\<close>

definition init_groups :: "int \<Rightarrow> 'a groups" where
  "init_groups num_groups =
     fold (\<lambda>i groups. AList.update (group_name i) [] groups) [0..<nat num_groups] []"

text \<open>\<open>best_score\<close> starts at \<open>-float('inf')\<close>, below every integer score.\<close>

datatype best_score = MinusInf | Score int

fun score_gt :: "int \<Rightarrow> best_score \<Rightarrow> bool" where
  "score_gt s MinusInf = True"
| "score_gt s (Score b) = (s > b)"

text \<open>\<open>sum(1 for f in student_to_friends.get(student, []) if f in members)\<close>\<close>

definition friend_score :: "'a friends \<Rightarrow> 'a \<Rightarrow> 'a list \<Rightarrow> int" where
  "friend_score student_to_friends student members =
     int (length (filter (\<lambda>f. f \<in> set members) (dict_get student_to_friends student [])))"

text \<open>
  The inner loop over \<open>groups.items()\<close>, carrying \<open>best_group\<close> and
  \<open>best_score\<close>. A student who is already in \<open>student_to_group\<close> is skipped at
  every group.
\<close>

fun scan_groups ::
  "'a friends \<Rightarrow> ('a \<rightharpoonup> string) \<Rightarrow> 'a \<Rightarrow> 'a groups \<Rightarrow> string option \<times> best_score
     \<Rightarrow> string option \<times> best_score" where
  "scan_groups student_to_friends student_to_group student [] best = best"
| "scan_groups student_to_friends student_to_group student ((grp, members) # rest)
       (best_group, best_score) =
     (if student_to_group student \<noteq> None
      then scan_groups student_to_friends student_to_group student rest (best_group, best_score)
      else
        (let score = friend_score student_to_friends student members * 10 - int (length members)
         in if score_gt score best_score
            then scan_groups student_to_friends student_to_group student rest
                   (Some grp, Score score)
            else scan_groups student_to_friends student_to_group student rest
                   (best_group, best_score)))"

text \<open>
  The outer loop over the (shuffled) students, carrying \<open>groups\<close> and
  \<open>student_to_group\<close>. \<open>groups[best_group].append(student)\<close> reads the key first.
\<close>

fun assign_loop ::
  "'a friends \<Rightarrow> 'a list \<Rightarrow> 'a groups \<times> ('a \<rightharpoonup> string)
     \<Rightarrow> error + ('a groups \<times> ('a \<rightharpoonup> string))" where
  "assign_loop student_to_friends [] st = Inr st"
| "assign_loop student_to_friends (student # rest) (groups, student_to_group) =
     (case fst (scan_groups student_to_friends student_to_group student groups (None, MinusInf)) of
        None \<Rightarrow> assign_loop student_to_friends rest (groups, student_to_group)
      | Some best_group \<Rightarrow>
          (case dict_item groups best_group of
             Inl e \<Rightarrow> Inl e
           | Inr members \<Rightarrow>
               assign_loop student_to_friends rest
                 (AList.update best_group (members @ [student]) groups,
                  student_to_group(student \<mapsto> best_group))))"

text \<open>
  \<open>random.shuffle\<close> is library code: it is the parameter \<open>shuffle\<close>, the function
  from the list before the call to the list after it. The call shuffles the caller's
  list in place, so the function returns the list as it is afterwards beside the groups.
\<close>

definition assign_students_to_groups ::
  "('a list \<Rightarrow> 'a list) \<Rightarrow> 'a list \<Rightarrow> 'a friends \<Rightarrow> int \<Rightarrow> error + ('a groups \<times> 'a list)" where
  "assign_students_to_groups shuffle students student_to_friends num_groups =
     (let students' = shuffle students
      in case assign_loop student_to_friends students' (init_groups num_groups, Map.empty) of
           Inl e \<Rightarrow> Inl e
         | Inr (groups, student_to_group) \<Rightarrow> Inr (groups, students'))"

section \<open>balance_groups\<close>

text \<open>
  \<open>[g for g in group_list if P(len(groups[g]))]\<close>, for the two comprehensions of the
  loop body.
\<close>

fun keys_where :: "(nat \<Rightarrow> bool) \<Rightarrow> 'a groups \<Rightarrow> string list \<Rightarrow> error + string list" where
  "keys_where P groups [] = Inr []"
| "keys_where P groups (g # gs) =
     (case dict_item groups g of
        Inl e \<Rightarrow> Inl e
      | Inr members \<Rightarrow>
          (case keys_where P groups gs of
             Inl e \<Rightarrow> Inl e
           | Inr r \<Rightarrow> Inr (if P (length members) then g # r else r)))"

text \<open>
  \<open>student = groups[donor].pop(); groups[receiver].append(student)\<close>.
  \<open>pop\<close> takes the last element and raises \<open>IndexError\<close> on an empty list.
\<close>

definition move_student :: "'a groups \<Rightarrow> string \<Rightarrow> string \<Rightarrow> error + 'a groups" where
  "move_student groups donor receiver =
     (case dict_item groups donor of
        Inl e \<Rightarrow> Inl e
      | Inr donor_members \<Rightarrow>
          if donor_members = [] then Inl IndexError
          else
            (let student = last donor_members;
                 groups1 = AList.update donor (butlast donor_members) groups
             in case dict_item groups1 receiver of
                  Inl e \<Rightarrow> Inl e
                | Inr receiver_members \<Rightarrow>
                    Inr (AList.update receiver (receiver_members @ [student]) groups1)))"

text \<open>
  One pass through the body of \<open>while True\<close>: \<open>Inr None\<close> is the \<open>break\<close>,
  \<open>Inr (Some groups')\<close> the groups after one student has moved.
\<close>

definition balance_iteration ::
  "string list \<Rightarrow> 'a groups \<Rightarrow> int \<Rightarrow> error + 'a groups option" where
  "balance_iteration group_list groups target_size =
     (case keys_where (\<lambda>n. int n > target_size + 1) groups group_list of
        Inl e \<Rightarrow> Inl e
      | Inr overfilled \<Rightarrow>
          (case keys_where (\<lambda>n. int n < target_size) groups group_list of
             Inl e \<Rightarrow> Inl e
           | Inr underfilled \<Rightarrow>
               (case (overfilled, underfilled) of
                  (donor # _, receiver # _) \<Rightarrow>
                    (case move_student groups donor receiver of
                       Inl e \<Rightarrow> Inl e
                     | Inr groups' \<Rightarrow> Inr (Some groups'))
                | _ \<Rightarrow> Inr None)))"

text \<open>The sum over the groups of \<open>|len(members) - target_size|\<close>.\<close>

definition total_deviation :: "'a groups \<Rightarrow> int \<Rightarrow> nat" where
  "total_deviation groups target_size =
     (\<Sum>(g, members)\<leftarrow>groups. nat \<bar>int (length members) - target_size\<bar>)"

section \<open>Facts about the dictionary operations and the balancing step\<close>

lemma dict_item_Inr: "dict_item d k = Inr v \<longleftrightarrow> map_of d k = Some v"
  by (simp add: dict_item_def split: option.splits)

lemma sum_list_update:
  fixes f :: "'v \<Rightarrow> 'm::comm_monoid_add"
  shows "map_of al k = Some v \<Longrightarrow>
    (\<Sum>x\<leftarrow>AList.update k v' al. f (snd x)) + f v = (\<Sum>x\<leftarrow>al. f (snd x)) + f v'"
  by (induction al) (auto simp: ac_simps split: if_splits)

lemma keys_where_Inr_mem:
  "keys_where P groups gs = Inr r \<Longrightarrow> g \<in> set r \<Longrightarrow>
     \<exists>members. map_of groups g = Some members \<and> P (length members)"
  by (induction gs arbitrary: r)
     (auto simp: dict_item_Inr split: sum.splits if_splits)

lemma keys_where_subset:
  "keys_where P groups gs = Inr r \<Longrightarrow> set r \<subseteq> set gs"
  by (induction gs arbitrary: r) (auto split: sum.splits if_splits)

lemma move_student_Inr:
  assumes "move_student groups donor receiver = Inr groups'"
  obtains dm rm where "map_of groups donor = Some dm" "dm \<noteq> []"
    "map_of (AList.update donor (butlast dm) groups) receiver = Some rm"
    "groups' = AList.update receiver (rm @ [last dm]) (AList.update donor (butlast dm) groups)"
  using assms
  by (auto simp: move_student_def Let_def dict_item_Inr split: sum.splits if_splits)

lemma total_deviation_alt:
  "total_deviation groups T = (\<Sum>x\<leftarrow>groups. nat \<bar>int (length (snd x)) - T\<bar>)"
  by (simp add: total_deviation_def case_prod_unfold)

lemma move_student_deviation:
  assumes mv: "move_student groups donor receiver = Inr groups'"
    and d: "map_of groups donor = Some dm" "int (length dm) > T + 1"
    and r: "map_of groups receiver = Some rm" "int (length rm) < T"
  shows "total_deviation groups' T + 2 = total_deviation groups T"
proof -
  have ne: "donor \<noteq> receiver" using d r by auto
  let ?f = "\<lambda>ms::'a list. nat \<bar>int (length ms) - T\<bar>"
  let ?g1 = "AList.update donor (butlast dm) groups"
  from mv d r ne have g': "groups' = AList.update receiver (rm @ [last dm]) ?g1"
    by (elim move_student_Inr) (auto simp: update_conv')
  have r1: "map_of ?g1 receiver = Some rm" using r ne by (simp add: update_conv')
  have 1: "(\<Sum>x\<leftarrow>?g1. ?f (snd x)) + ?f dm = (\<Sum>x\<leftarrow>groups. ?f (snd x)) + ?f (butlast dm)"
    by (rule sum_list_update [OF d(1)])
  have 2: "(\<Sum>x\<leftarrow>groups'. ?f (snd x)) + ?f rm = (\<Sum>x\<leftarrow>?g1. ?f (snd x)) + ?f (rm @ [last dm])"
    unfolding g' by (rule sum_list_update [OF r1])
  have 3: "?f (butlast dm) + 1 = ?f dm" using d(2) r(2) by (simp add: nat_diff_distrib) 
  have 4: "?f (rm @ [last dm]) + 1 = ?f rm" using r(2) by simp
  from 1 2 3 4 show ?thesis unfolding total_deviation_alt by linarith
qed

lemma balance_iteration_Some:
  assumes "balance_iteration gl groups T = Inr (Some groups')"
  obtains donor receiver dm rm where
    "move_student groups donor receiver = Inr groups'"
    "map_of groups donor = Some dm" "int (length dm) > T + 1"
    "map_of groups receiver = Some rm" "int (length rm) < T"
    "donor \<in> set gl" "receiver \<in> set gl"
proof -
  from assms obtain ov un donor receiver ovs uns where
    ov: "keys_where (\<lambda>n. int n > T + 1) groups gl = Inr ov" and
    un: "keys_where (\<lambda>n. int n < T) groups gl = Inr un" and
    eq: "ov = donor # ovs" "un = receiver # uns" and
    mv: "move_student groups donor receiver = Inr groups'"
    by (auto simp: balance_iteration_def split: sum.splits list.splits)
  from keys_where_Inr_mem [OF ov, of donor] eq obtain dm where
    d: "map_of groups donor = Some dm" "int (length dm) > T + 1" by auto
  from keys_where_Inr_mem [OF un, of receiver] eq obtain rm where
    r: "map_of groups receiver = Some rm" "int (length rm) < T" by auto
  have "donor \<in> set gl" "receiver \<in> set gl"
    using keys_where_subset [OF ov] keys_where_subset [OF un] eq by auto
  with mv d r show thesis by (rule that)
qed

lemma balance_iteration_deviation:
  assumes "balance_iteration gl groups T = Inr (Some groups')"
  shows "total_deviation groups' T + 2 = total_deviation groups T"
  using assms by (elim balance_iteration_Some) (rule move_student_deviation)

text \<open>
  The loop \<open>while True\<close>. Every pass that does not \<open>break\<close> lowers
  \<open>total_deviation\<close> by two, which is the termination argument below.
\<close>

function balance_loop :: "string list \<Rightarrow> 'a groups \<Rightarrow> int \<Rightarrow> error + 'a groups" where
  "balance_loop group_list groups target_size =
     (case balance_iteration group_list groups target_size of
        Inl e \<Rightarrow> Inl e
      | Inr None \<Rightarrow> Inr groups
      | Inr (Some groups') \<Rightarrow> balance_loop group_list groups' target_size)"
  by pat_completeness auto
termination
proof (relation "measure (\<lambda>(group_list, groups, target_size). total_deviation groups target_size)")
  show "wf (measure (\<lambda>(group_list, groups, target_size). total_deviation groups target_size))"
    by simp
next
  fix group_list :: "string list" and groups :: "'a groups" and target_size x2 groups'
  assume "balance_iteration group_list groups target_size = Inr x2" "x2 = Some groups'"
  then have "total_deviation groups' target_size + 2 = total_deviation groups target_size"
    using balance_iteration_deviation [of group_list groups target_size groups'] by simp
  then show "((group_list, groups', target_size), (group_list, groups, target_size))
      \<in> measure (\<lambda>(group_list, groups, target_size). total_deviation groups target_size)"
    by simp
qed

declare balance_loop.simps [simp del]

definition balance_groups :: "'a groups \<Rightarrow> int \<Rightarrow> error + 'a groups" where
  "balance_groups groups target_size = balance_loop (map fst groups) groups target_size"


section \<open>evaluate_friend_success\<close>

text \<open>
  The dictionary comprehension \<open>{student: group for group, members in groups.items()
  for student in members}\<close>: a student listed twice keeps the last group.
\<close>

definition student_to_group_of :: "'a groups \<Rightarrow> ('a \<rightharpoonup> string)" where
  "student_to_group_of groups =
     fold (\<lambda>(grp, members) m. fold (\<lambda>student m. m(student \<mapsto> grp)) members m)
       groups Map.empty"

text \<open>
  The loop over \<open>student_to_friends.items()\<close>, carrying \<open>total\<close> and
  \<open>success\<close>. The test \<open>student not in student_to_group\<close> and the read
  \<open>student_to_group[student]\<close> that it guards are one \<open>case\<close>.
\<close>

fun count_friends :: "('a \<rightharpoonup> string) \<Rightarrow> 'a friends \<Rightarrow> nat \<times> nat \<Rightarrow> nat \<times> nat" where
  "count_friends student_to_group [] (total', success) = (total', success)"
| "count_friends student_to_group ((student, friends) # rest) (total', success) =
     (case student_to_group student of
        None \<Rightarrow> count_friends student_to_group rest (total', success)
      | Some grp \<Rightarrow>
          count_friends student_to_group rest
            (total' + 1,
             if list_ex (\<lambda>f. student_to_group f \<noteq> None \<and> student_to_group f = Some grp) friends
             then success + 1 else success))"

text \<open>
  \<open>percent = (success / total) * 100\<close> is computed in floating point: \<open>/\<close> on
  two Python integers returns the binary64 number nearest to the exact quotient, and
  the product with \<open>100\<close> is rounded to binary64 again. A float is modelled by the
  rational number that it denotes. Rounding is to the nearest representable number,
  a tie going to the even significand.
\<close>

definition round_half_even :: "rat \<Rightarrow> int" where
  "round_half_even x =
     (let f = \<lfloor>x\<rfloor>; r = x - of_int f
      in if r < 1 / 2 then f else if 1 / 2 < r then f + 1 else if even f then f else f + 1)"

text \<open>The exponent of a positive rational: \<open>2 ^ ilog2 x \<le> x < 2 ^ (ilog2 x + 1)\<close>.\<close>

definition ilog2 :: "rat \<Rightarrow> int" where
  "ilog2 x =
     (let (a, b) = quotient_of x;
          d = bitlen a - bitlen b
      in if 2 powi d \<le> x then d else d - 1)"

text \<open>
  The binary64 number nearest to \<open>x\<close>: a significand of 53 bits, and the spacing
  \<open>2 ^ -1074\<close> of the subnormal numbers below \<open>2 ^ -1022\<close>. Overflow does not
  arise here: every quotient is at most 1 and every product at most 100.
\<close>

definition float_round :: "rat \<Rightarrow> rat" where
  "float_round x =
     (if x = 0 then 0
      else
        (let e = max (ilog2 \<bar>x\<bar> - 52) (- 1074);
             m = round_half_even (\<bar>x\<bar> / 2 powi e)
         in sgn x * of_int m * 2 powi e))"

text \<open>\<open>a / b\<close> on integers (\<open>b\<close> not zero) and \<open>a * b\<close> on floats.\<close>

definition float_div :: "rat \<Rightarrow> rat \<Rightarrow> rat" where
  "float_div a b = float_round (a / b)"

definition float_mul :: "rat \<Rightarrow> rat \<Rightarrow> rat" where
  "float_mul a b = float_round (a * b)"

text \<open>
  \<open>percent = (success / total) * 100 if total > 0 else 0\<close>, then the returned
  triple.
\<close>

definition evaluate_friend_success :: "'a groups \<Rightarrow> 'a friends \<Rightarrow> rat \<times> nat \<times> nat" where
  "evaluate_friend_success groups student_to_friends =
     (let student_to_group = student_to_group_of groups;
          (total', success) = count_friends student_to_group student_to_friends (0, 0);
          percent = (if total' > 0
                     then float_mul (float_div (of_nat success) (of_nat total')) 100 else 0)
      in (percent, success, total'))"

section \<open>run_smart_assignment and run_n_times\<close>

text \<open>
  \<open>load_students\<close> reads a file: what it returns is the parameter \<open>loaded\<close>.
  The two calls of \<open>shuffle\<close> in one trial (one here, one inside
  \<open>assign_students_to_groups\<close>) are the parameters \<open>shuffle1\<close> and
  \<open>shuffle2\<close>. \<open>//\<close> is floor division and raises on a zero divisor.
\<close>

definition run_smart_assignment ::
  "('a list \<Rightarrow> 'a list) \<Rightarrow> ('a list \<Rightarrow> 'a list) \<Rightarrow> 'a list \<times> 'a friends \<Rightarrow> int
     \<Rightarrow> error + (rat \<times> 'a groups \<times> 'a friends \<times> nat \<times> nat)" where
  "run_smart_assignment shuffle1 shuffle2 loaded num_groups =
     (let (students, student_to_friends) = loaded;
          students1 = shuffle1 students
      in case assign_students_to_groups shuffle2 students1 student_to_friends num_groups of
           Inl e \<Rightarrow> Inl e
         | Inr (groups, students2) \<Rightarrow>
             (let total_students = int (length students2)
              in if num_groups = 0 then Inl ZeroDivisionError
                 else
                   (let target_size = total_students div num_groups
                    in case balance_groups groups target_size of
                         Inl e \<Rightarrow> Inl e
                       | Inr groups' \<Rightarrow>
                           (let (percent, success, total') =
                                  evaluate_friend_success groups' student_to_friends
                            in Inr (percent, groups', student_to_friends, success, total')))))"

text \<open>
  \<open>max_values_dict\<close>; the keys \<open>"groups"\<close> and \<open>"student_to_friends"\<close> start at
  \<open>None\<close>.
\<close>

record 'a values_dict =
  d_total :: nat
  d_success :: nat
  d_percent :: rat
  d_groups :: "'a groups option"
  d_student_to_friends :: "'a friends option"

definition initial_values :: "'a values_dict" where
  "initial_values =
     \<lparr>d_total = 0, d_success = 0, d_percent = 0, d_groups = None, d_student_to_friends = None\<rparr>"

text \<open>
  The body of the \<open>for\<close> loop after the trial has returned: the five keys are
  overwritten together when the new percentage is strictly greater.
\<close>

definition keep_best ::
  "'a values_dict \<Rightarrow> rat \<times> 'a groups \<times> 'a friends \<times> nat \<times> nat \<Rightarrow> 'a values_dict" where
  "keep_best max_values curr_values =
     (case curr_values of (percent, groups, student_to_friends, success, total') \<Rightarrow>
        if percent > d_percent max_values
        then \<lparr>d_total = total', d_success = success, d_percent = percent,
              d_groups = Some groups, d_student_to_friends = Some student_to_friends\<rparr>
        else max_values)"

text \<open>
  The loop \<open>for i in range(n)\<close>; \<open>trial i\<close> is what \<open>run_smart_assignment\<close>
  returns in pass \<open>i\<close>. An exception in a trial ends the loop.
\<close>

fun run_trials ::
  "(nat \<Rightarrow> error + (rat \<times> 'a groups \<times> 'a friends \<times> nat \<times> nat)) \<Rightarrow> nat list
     \<Rightarrow> 'a values_dict \<Rightarrow> error + 'a values_dict" where
  "run_trials trial [] max_values = Inr max_values"
| "run_trials trial (i # rest) max_values =
     (case trial i of
        Inl e \<Rightarrow> Inl e
      | Inr curr_values \<Rightarrow> run_trials trial rest (keep_best max_values curr_values))"

text \<open>
  The randomness of a run is the parameter \<open>rnd\<close>: \<open>rnd k\<close> is the effect of the
  \<open>k\<close>-th call of \<open>shuffle\<close>, and pass \<open>i\<close> makes the calls \<open>2 * i\<close> and
  \<open>2 * i + 1\<close>.
\<close>

definition trial ::
  "(nat \<Rightarrow> 'a list \<Rightarrow> 'a list) \<Rightarrow> 'a list \<times> 'a friends \<Rightarrow> int \<Rightarrow> nat
     \<Rightarrow> error + (rat \<times> 'a groups \<times> 'a friends \<times> nat \<times> nat)" where
  "trial rnd loaded num_groups i =
     run_smart_assignment (rnd (2 * i)) (rnd (2 * i + 1)) loaded num_groups"

definition run_n_times_loop ::
  "(nat \<Rightarrow> 'a list \<Rightarrow> 'a list) \<Rightarrow> 'a list \<times> 'a friends \<Rightarrow> int \<Rightarrow> int
     \<Rightarrow> error + 'a values_dict" where
  "run_n_times_loop rnd loaded num_groups n =
     run_trials (trial rnd loaded num_groups) [0..<nat n] initial_values"

text \<open>
  \<open>export_assignments_to_excel\<close> up to the point where it starts writing: it builds
  one row per student from \<open>groups.items()\<close>, which raises \<open>AttributeError\<close> when
  \<open>groups\<close> is \<open>None\<close>. A row is (group, student, friends chosen, friends in the same
  group, success mark). \<open>student_to_friends.get\<close> is called once per student, so it
  raises \<open>AttributeError\<close> on \<open>None\<close> only when some group has a member. With no
  row, \<open>pd.DataFrame(rows)\<close> has no column and \<open>sort_values(by=["Group", "Student"])\<close>
  raises \<open>KeyError\<close>. The result is the list of rows in the order in which they are
  built; their sorting and the writing of the file are not modelled.
\<close>

definition export_rows ::
  "'a groups option \<Rightarrow> 'a friends option
     \<Rightarrow> error + (string \<times> 'a \<times> 'a list \<times> 'a list \<times> bool) list" where
  "export_rows groups student_to_friends =
     (case groups of
        None \<Rightarrow> Inl AttributeError
      | Some gs \<Rightarrow>
          if concat (map snd gs) = [] then Inl KeyError
          else
            (case student_to_friends of
               None \<Rightarrow> Inl AttributeError
             | Some stf \<Rightarrow>
                 Inr (concat (map (\<lambda>(grp, members).
                        map (\<lambda>student.
                               (let friends = dict_get stf student [];
                                    friends_in_group = filter (\<lambda>f. f \<in> set members) friends
                                in (grp, student, friends, friends_in_group,
                                    friends_in_group \<noteq> []))) members) gs))))"

text \<open>
  \<open>run_n_times\<close>: the loop, then the export of the best record. The function prints
  and exports the record and returns nothing; the model returns the record it reports.
\<close>

definition run_n_times ::
  "(nat \<Rightarrow> 'a list \<Rightarrow> 'a list) \<Rightarrow> 'a list \<times> 'a friends \<Rightarrow> int \<Rightarrow> int
     \<Rightarrow> error + 'a values_dict" where
  "run_n_times rnd loaded num_groups n =
     (case run_n_times_loop rnd loaded num_groups n of
        Inl e \<Rightarrow> Inl e
      | Inr max_values \<Rightarrow>
          (case export_rows (d_groups max_values) (d_student_to_friends max_values) of
             Inl e \<Rightarrow> Inl e
           | Inr rows \<Rightarrow> Inr max_values))"

section \<open>The balancer returns, keeps keys and members, and stops at its exit test\<close>

lemma map_of_keys: "g \<in> fst ` set al \<Longrightarrow> \<exists>v. map_of al g = Some v"
  by (metis domD dom_map_of_conv_image_fst)

lemma keys_where_no_error:
  "set gs \<subseteq> fst ` set groups \<Longrightarrow> \<exists>r. keys_where P groups gs = Inr r"
proof (induction gs)
  case Nil
  then show ?case by simp
next
  case (Cons g gs)
  then obtain v where "map_of groups g = Some v" using map_of_keys [of g groups] by auto
  with Cons show ?case by (auto simp: dict_item_def)
qed

lemma keys_where_empty:
  "keys_where P groups gs = Inr [] \<Longrightarrow> g \<in> set gs \<Longrightarrow> map_of groups g = Some ms
     \<Longrightarrow> \<not> P (length ms)"
  by (induction gs) (auto simp: dict_item_def split: sum.splits if_splits option.splits)

lemma move_student_ok:
  assumes "map_of groups donor = Some dm" "dm \<noteq> []" "map_of groups receiver = Some rm"
    "donor \<noteq> receiver"
  shows "move_student groups donor receiver
    = Inr (AList.update receiver (rm @ [last dm]) (AList.update donor (butlast dm) groups))"
  using assms by (simp add: move_student_def dict_item_def Let_def update_conv')

lemma mset_concat_update:
  assumes "map_of al k = Some v"
  shows "mset (concat (map snd (AList.update k v' al))) + mset v
     = mset (concat (map snd al)) + mset v'"
  using sum_list_update [OF assms, of mset v'] by (simp add: mset_concat comp_def)

lemma update_keys_present:
  "map_of al k = Some v \<Longrightarrow> map fst (AList.update k v' al) = map fst al"
  by (simp add: update_keys) (metis domI dom_map_of_conv_image_fst)

lemma balance_iteration_no_error:
  assumes "set gl \<subseteq> fst ` set groups"
  shows "\<exists>r. balance_iteration gl groups T = Inr r"
proof -
  obtain ov where ov: "keys_where (\<lambda>n. int n > T + 1) groups gl = Inr ov"
    using keys_where_no_error [OF assms] by blast
  obtain un where un: "keys_where (\<lambda>n. int n < T) groups gl = Inr un"
    using keys_where_no_error [OF assms] by blast
  show ?thesis
  proof (cases "ov = [] \<or> un = []")
    case True
    then show ?thesis using ov un
      by (auto simp: balance_iteration_def split: list.splits)
  next
    case False
    then obtain donor ovs receiver uns where eq: "ov = donor # ovs" "un = receiver # uns"
      by (cases ov; cases un) auto
    from keys_where_Inr_mem [OF ov, of donor] eq obtain dm where
      d: "map_of groups donor = Some dm" "int (length dm) > T + 1" by auto
    from keys_where_Inr_mem [OF un, of receiver] eq obtain rm where
      r: "map_of groups receiver = Some rm" "int (length rm) < T" by auto
    have "dm \<noteq> []" "donor \<noteq> receiver" using d r by auto
    from move_student_ok [OF d(1) this(1) r(1) this(2)] ov un eq show ?thesis
      by (simp add: balance_iteration_def)
  qed
qed

lemma balance_iteration_preserves:
  assumes "balance_iteration gl groups T = Inr (Some groups')"
  shows "map fst groups' = map fst groups"
    and "mset (concat (map snd groups')) = mset (concat (map snd groups))"
proof -
  from assms obtain donor receiver dm rm where
    mv: "move_student groups donor receiver = Inr groups'" and
    d: "map_of groups donor = Some dm" "int (length dm) > T + 1" and
    r: "map_of groups receiver = Some rm" "int (length rm) < T"
    by (elim balance_iteration_Some)
  have ne: "dm \<noteq> []" "donor \<noteq> receiver" using d r by auto
  let ?g1 = "AList.update donor (butlast dm) groups"
  have g': "groups' = AList.update receiver (rm @ [last dm]) ?g1"
    using move_student_ok [OF d(1) ne(1) r(1) ne(2)] mv by simp
  have r1: "map_of ?g1 receiver = Some rm" using r ne by (simp add: update_conv')
  show "map fst groups' = map fst groups"
    unfolding g' by (simp add: update_keys_present [OF r1] update_keys_present [OF d(1)])
  have 1: "mset (concat (map snd ?g1)) + mset dm
      = mset (concat (map snd groups)) + mset (butlast dm)"
    by (rule mset_concat_update [OF d(1)])
  have 2: "mset (concat (map snd groups')) + mset rm
      = mset (concat (map snd ?g1)) + mset (rm @ [last dm])"
    unfolding g' by (rule mset_concat_update [OF r1])
  have "mset (butlast dm @ [last dm]) = mset dm" using ne(1) by simp
  then have 3: "mset dm = add_mset (last dm) (mset (butlast dm))" by simp
  from 1 3 have 4: "add_mset (last dm) (mset (concat (map snd ?g1))) = mset (concat (map snd groups))"
    by simp
  from 2 have 5: "mset (concat (map snd groups')) = add_mset (last dm) (mset (concat (map snd ?g1)))"
    by simp
  from 4 5 show "mset (concat (map snd groups')) = mset (concat (map snd groups))"
    by simp
qed

lemma balance_iteration_None:
  assumes "balance_iteration gl groups T = Inr None"
  shows "(\<forall>g\<in>set gl. \<forall>ms. map_of groups g = Some ms \<longrightarrow> int (length ms) \<le> T + 1)
       \<or> (\<forall>g\<in>set gl. \<forall>ms. map_of groups g = Some ms \<longrightarrow> T \<le> int (length ms))"
proof -
  from assms obtain ov un where
    ov: "keys_where (\<lambda>n. int n > T + 1) groups gl = Inr ov" and
    un: "keys_where (\<lambda>n. int n < T) groups gl = Inr un" and
    e: "ov = [] \<or> un = []"
    by (auto simp: balance_iteration_def split: sum.splits list.splits)
  from e show ?thesis
  proof
    assume "ov = []"
    with ov have "\<forall>g\<in>set gl. \<forall>ms. map_of groups g = Some ms \<longrightarrow> int (length ms) \<le> T + 1"
      by (auto dest: keys_where_empty)
    then show ?thesis ..
  next
    assume "un = []"
    with un have "\<forall>g\<in>set gl. \<forall>ms. map_of groups g = Some ms \<longrightarrow> T \<le> int (length ms)"
      by (auto dest: keys_where_empty)
    then show ?thesis ..
  qed
qed

lemma balance_loop_result:
  assumes "gl = map fst groups"
  shows "\<exists>r. balance_loop gl groups T = Inr r \<and> map fst r = map fst groups
     \<and> mset (concat (map snd r)) = mset (concat (map snd groups))
     \<and> balance_iteration gl r T = Inr None"
  using assms
proof (induction gl groups T rule: balance_loop.induct)
  case (1 gl groups T)
  have "set gl \<subseteq> fst ` set groups" using "1.prems" by auto
  then obtain x where x: "balance_iteration gl groups T = Inr x"
    using balance_iteration_no_error by blast
  show ?case
  proof (cases x)
    case None
    with x show ?thesis by (subst balance_loop.simps) simp
  next
    case (Some groups')
    with x have it: "balance_iteration gl groups T = Inr (Some groups')" by simp
    note p = balance_iteration_preserves [OF it]
    from "1.IH" [OF x Some] "1.prems" p(1) obtain r where
      "balance_loop gl groups' T = Inr r" "map fst r = map fst groups'"
      "mset (concat (map snd r)) = mset (concat (map snd groups'))"
      "balance_iteration gl r T = Inr None" by auto
    with p it show ?thesis by (subst balance_loop.simps) simp
  qed
qed


section \<open>Termination of the balancer\<close>

text \<open>
  Claim C6. For every partition and every target size, \<open>balance_groups\<close> terminates:
  it returns a partition (it neither runs forever nor raises), because a pass through
  the loop that moves a student strictly lowers the total absolute deviation of the
  group sizes from the target, in fact by exactly two, and then goes on with the new
  groups. The termination proof of \<open>balance_loop\<close> above uses the same measure.
\<close>

theorem balance_groups_terminates:
  "(\<exists>balanced. balance_groups groups target_size = Inr balanced)
   \<and> (balance_iteration group_list groups target_size = Inr (Some groups') \<longrightarrow>
        total_deviation groups' target_size < total_deviation groups target_size
      \<and> total_deviation groups' target_size + 2 = total_deviation groups target_size
      \<and> balance_loop group_list groups target_size
          = balance_loop group_list groups' target_size)"
proof -
  have ret: "\<exists>balanced. balance_groups groups target_size = Inr balanced"
    using balance_loop_result [of "map fst groups" groups target_size]
    by (auto simp: balance_groups_def)
  have step: "total_deviation groups' target_size < total_deviation groups target_size
      \<and> total_deviation groups' target_size + 2 = total_deviation groups target_size
      \<and> balance_loop group_list groups target_size
          = balance_loop group_list groups' target_size"
    if it: "balance_iteration group_list groups target_size = Inr (Some groups')"
  proof -
    have "total_deviation groups' target_size + 2 = total_deviation groups target_size"
      using it by (rule balance_iteration_deviation)
    moreover have "balance_loop group_list groups target_size
        = balance_loop group_list groups' target_size"
      using it by (subst balance_loop.simps) simp
    ultimately show ?thesis by simp
  qed
  from ret step show ?thesis by blast
qed

theorem balance_groups_terminates_witness:
  "balance_groups [(''G1'', [1, 2, 3, 4 :: nat]), (''G2'', [])] 1
     = Inr [(''G1'', [1, 2, 3]), (''G2'', [4])]
   \<and> balance_iteration [''G1'', ''G2''] [(''G1'', [1, 2, 3, 4 :: nat]), (''G2'', [])] 1
     = Inr (Some [(''G1'', [1, 2, 3]), (''G2'', [4])])
   \<and> total_deviation [(''G1'', [1, 2, 3, 4 :: nat]), (''G2'', [])] 1 = 4
   \<and> total_deviation [(''G1'', [1, 2, 3 :: nat]), (''G2'', [4])] 1 = 2"
proof -
  have h: "balance_iteration [''G1'', ''G2''] [(''G1'', [1, 2, 3, 4 :: nat]), (''G2'', [])] 1
     = Inr (Some [(''G1'', [1, 2, 3]), (''G2'', [4])])"
    by code_simp
  have e: "balance_groups [(''G1'', [1, 2, 3, 4 :: nat]), (''G2'', [])] 1
     = Inr [(''G1'', [1, 2, 3]), (''G2'', [4])]"
    by code_simp
  have d: "total_deviation [(''G1'', [1, 2, 3 :: nat]), (''G2'', [4])] 1 = 2"
    by (simp add: total_deviation_def)
  from balance_groups_terminates
    [of "[(''G1'', [1, 2, 3, 4 :: nat]), (''G2'', [])]" 1 "[''G1'', ''G2'']"
        "[(''G1'', [1, 2, 3]), (''G2'', [4])]"] h
  have "total_deviation [(''G1'', [1, 2, 3 :: nat]), (''G2'', [4])] 1 + 2
      = total_deviation [(''G1'', [1, 2, 3, 4 :: nat]), (''G2'', [])] 1"
    by blast
  with h e d show ?thesis by simp
qed

section \<open>The balance bound\<close>

text \<open>
  Claim C1, as stated: after \<open>balance_groups\<close> with target size \<open>T\<close> no group is
  larger than \<open>T + 1\<close> and none is smaller than \<open>T\<close>, whenever the population is
  at least groups times \<open>T\<close> and the remainder is below the number of groups. This
  fails: five students in three groups of sizes 3, 1, 1 with \<open>T = 5 div 3 = 1\<close> have
  an overfull group but no underfull one, so the loop stops at once and the group of
  three stays.
\<close>

theorem balance_bound_counterexample:
  "balance_groups
     [(''Group1'', [''a'', ''b'', ''c'']), (''Group2'', [''d'']), (''Group3'', [''e''])] 1
   = Inr [(''Group1'', [''a'', ''b'', ''c'']), (''Group2'', [''d'']), (''Group3'', [''e''])]
   \<and> (5::int) \<ge> 3 * 1 \<and> (5::int) mod 3 < 3 \<and> (5::int) div 3 = 1
   \<and> \<not> int (length [''a'', ''b'', ''c'']) \<le> 1 + 1"
  by code_simp

text \<open>
  Claim C1, amended: for every partition (a dictionary, so with distinct keys) and every
  target size \<open>T\<close>, \<open>balance_groups\<close> returns a partition with the same keys in
  which at least one of the two bounds holds for all groups: no group is larger than
  \<open>T + 1\<close>, or no group is smaller than \<open>T\<close>.
\<close>

theorem balance_groups_exit_bound:
  assumes "distinct (map fst groups)"
  shows "\<exists>balanced. balance_groups groups target_size = Inr balanced
     \<and> map fst balanced = map fst groups
     \<and> ((\<forall>(g, members) \<in> set balanced. int (length members) \<le> target_size + 1)
        \<or> (\<forall>(g, members) \<in> set balanced. target_size \<le> int (length members)))"
proof -
  obtain r where r: "balance_loop (map fst groups) groups target_size = Inr r"
    "map fst r = map fst groups" "balance_iteration (map fst groups) r target_size = Inr None"
    using balance_loop_result [of "map fst groups" groups target_size] by auto
  have d: "distinct (map fst r)" using assms r(2) by simp
  have m: "map_of r g = Some ms" "g \<in> set (map fst groups)" if "(g, ms) \<in> set r" for g ms
    using that d r(2) by (auto simp: rev_image_eqI) (metis fst_conv image_eqI list.set_map)
  from balance_iteration_None [OF r(3)]
  have "(\<forall>(g, members) \<in> set r. int (length members) \<le> target_size + 1)
        \<or> (\<forall>(g, members) \<in> set r. target_size \<le> int (length members))"
  proof
    assume a: "\<forall>g\<in>set (map fst groups). \<forall>ms. map_of r g = Some ms
        \<longrightarrow> int (length ms) \<le> target_size + 1"
    have "\<forall>(g, members) \<in> set r. int (length members) \<le> target_size + 1"
    proof (clarify)
      fix g ms assume "(g, ms) \<in> set r"
      from m [OF this] a show "int (length ms) \<le> target_size + 1" by blast
    qed
    then show ?thesis ..
  next
    assume a: "\<forall>g\<in>set (map fst groups). \<forall>ms. map_of r g = Some ms
        \<longrightarrow> target_size \<le> int (length ms)"
    have "\<forall>(g, members) \<in> set r. target_size \<le> int (length members)"
    proof (clarify)
      fix g ms assume "(g, ms) \<in> set r"
      from m [OF this] a show "target_size \<le> int (length ms)" by blast
    qed
    then show ?thesis ..
  qed
  with r show ?thesis by (simp add: balance_groups_def)
qed

theorem balance_groups_exit_bound_witness:
  "distinct (map fst [(''G1'', [1, 2, 3, 4, 5 :: nat]), (''G2'', [6]), (''G3'', [])])
   \<and> balance_groups [(''G1'', [1, 2, 3, 4, 5 :: nat]), (''G2'', [6]), (''G3'', [])] 2
       = Inr [(''G1'', [1, 2, 3]), (''G2'', [6, 5]), (''G3'', [4])]
   \<and> map fst [(''G1'', [1, 2, 3 :: nat]), (''G2'', [6, 5]), (''G3'', [4])]
       = map fst [(''G1'', [1, 2, 3, 4, 5 :: nat]), (''G2'', [6]), (''G3'', [])]
   \<and> map (\<lambda>(g, members). int (length members) \<le> 2 + 1)
         [(''G1'', [1, 2, 3 :: nat]), (''G2'', [6, 5]), (''G3'', [4])] = [True, True, True]"
proof -
  have d: "distinct (map fst [(''G1'', [1, 2, 3, 4, 5 :: nat]), (''G2'', [6]), (''G3'', [])])"
    by simp
  have e: "balance_groups [(''G1'', [1, 2, 3, 4, 5 :: nat]), (''G2'', [6]), (''G3'', [])] 2
       = Inr [(''G1'', [1, 2, 3]), (''G2'', [6, 5]), (''G3'', [4])]"
    by code_simp
  from balance_groups_exit_bound [OF d, of 2] e d show ?thesis by auto
qed


section \<open>The greedy assigner places every student once\<close>

lemma scan_groups_assigned:
  "student_to_group student \<noteq> None \<Longrightarrow>
     scan_groups p student_to_group student groups best = best"
  by (induction groups arbitrary: best) (auto simp: split_paired_all)

lemma scan_groups_key:
  "fst (scan_groups p stg s groups (bg, bs)) = Some g \<Longrightarrow> g \<in> fst ` set groups \<or> bg = Some g"
proof (induction groups arbitrary: bg bs)
  case Nil
  then show ?case by simp
next
  case (Cons x groups)
  obtain grp members where x: "x = (grp, members)" by (cases x)
  from Cons.prems Cons.IH show ?case
    unfolding x by (auto simp: Let_def split: if_splits)
qed

lemma scan_groups_Some:
  "stg s = None \<Longrightarrow> fst (scan_groups p stg s groups (Some g0, bs)) \<noteq> None"
proof (induction groups arbitrary: g0 bs)
  case Nil
  then show ?case by simp
next
  case (Cons x groups)
  obtain grp members where x: "x = (grp, members)" by (cases x)
  from Cons show ?case unfolding x by (simp add: Let_def)
qed

lemma scan_groups_finds:
  assumes "stg s = None" "groups \<noteq> []"
  shows "\<exists>g. fst (scan_groups p stg s groups (None, MinusInf)) = Some g \<and> g \<in> fst ` set groups"
proof -
  obtain grp members rest where g: "groups = (grp, members) # rest"
    using assms(2) by (cases groups) auto
  have "fst (scan_groups p stg s groups (None, MinusInf)) \<noteq> None"
    unfolding g using assms(1) scan_groups_Some [of stg s] by (simp add: Let_def)
  then obtain g' where "fst (scan_groups p stg s groups (None, MinusInf)) = Some g'" by auto
  with scan_groups_key [of p stg s groups None MinusInf g'] show ?thesis by auto
qed

text \<open>
  The invariant of the outer loop: \<open>student_to_group\<close> knows exactly the students
  that are in some group, no student is in two places, and the keys are distinct.
\<close>

definition assign_inv :: "'a groups \<times> ('a \<rightharpoonup> string) \<Rightarrow> bool" where
  "assign_inv st = (case st of (groups, stg) \<Rightarrow>
     dom stg = set (concat (map snd groups)) \<and> distinct (concat (map snd groups))
     \<and> distinct (map fst groups))"

lemma assign_step:
  assumes inv: "assign_inv (groups, stg)" and s: "stg s = None"
    and m: "map_of groups bg = Some members"
  shows "assign_inv (AList.update bg (members @ [s]) groups, stg(s \<mapsto> bg))"
    and "mset (concat (map snd (AList.update bg (members @ [s]) groups)))
       = add_mset s (mset (concat (map snd groups)))"
    and "map fst (AList.update bg (members @ [s]) groups) = map fst groups"
proof -
  let ?g = "AList.update bg (members @ [s]) groups"
  from mset_concat_update [OF m, of "members @ [s]"]
  show ms: "mset (concat (map snd ?g)) = add_mset s (mset (concat (map snd groups)))"
    by simp
  show k: "map fst ?g = map fst groups" by (rule update_keys_present [OF m])
  have notin: "s \<notin> set (concat (map snd groups))"
    using inv s unfolding assign_inv_def by (auto simp: domIff)
  have "set (concat (map snd ?g)) = insert s (set (concat (map snd groups)))"
    using arg_cong [OF ms, of set_mset] by (simp del: set_concat)
  moreover have "distinct (concat (map snd ?g))"
  proof -
    have "mset (concat (map snd ?g)) = mset (s # concat (map snd groups))"
      using ms by simp
    from mset_eq_imp_distinct_iff [OF this] notin inv show ?thesis
      unfolding assign_inv_def by (simp del: set_concat distinct_concat_iff)
  qed
  ultimately show "assign_inv (?g, stg(s \<mapsto> bg))"
    using inv k unfolding assign_inv_def by auto
qed

lemma assign_loop_result:
  assumes "assign_inv (groups, stg)"
  shows "\<exists>groups' stg'. assign_loop p students (groups, stg) = Inr (groups', stg')
     \<and> assign_inv (groups', stg') \<and> map fst groups' = map fst groups
     \<and> set (concat (map snd groups')) \<subseteq> set (concat (map snd groups)) \<union> set students
     \<and> set (concat (map snd groups)) \<subseteq> set (concat (map snd groups'))
     \<and> (groups \<noteq> [] \<longrightarrow> set students \<subseteq> set (concat (map snd groups')))"
  using assms
proof (induction students arbitrary: groups stg)
  case Nil
  then show ?case by simp
next
  case (Cons s students)
  show ?case
  proof (cases "fst (scan_groups p stg s groups (None, MinusInf))")
    case None
    have "groups \<noteq> [] \<Longrightarrow> stg s \<noteq> None"
      using scan_groups_finds [of stg s groups p] None by auto
    then have "groups \<noteq> [] \<Longrightarrow> s \<in> set (concat (map snd groups))"
      using Cons.prems unfolding assign_inv_def by (auto simp: domIff)
    then have in_g: "groups \<noteq> [] \<longrightarrow> s \<in> set (concat (map snd groups))" by blast
    from Cons.IH [OF Cons.prems] obtain groups' stg' where
      r: "assign_loop p students (groups, stg) = Inr (groups', stg')"
        "assign_inv (groups', stg')" "map fst groups' = map fst groups"
        "set (concat (map snd groups')) \<subseteq> set (concat (map snd groups)) \<union> set students"
        "set (concat (map snd groups)) \<subseteq> set (concat (map snd groups'))"
        "groups \<noteq> [] \<longrightarrow> set students \<subseteq> set (concat (map snd groups'))"
      by blast
    have "assign_loop p (s # students) (groups, stg) = Inr (groups', stg')"
      using None r(1) by simp
    moreover have "set (concat (map snd groups'))
        \<subseteq> set (concat (map snd groups)) \<union> set (s # students)"
      using r(4) by (auto simp del: set_concat)
    moreover have "groups \<noteq> [] \<longrightarrow> set (s # students) \<subseteq> set (concat (map snd groups'))"
      using r(5) r(6) in_g by (auto simp del: set_concat)
    ultimately show ?thesis using r(2) r(3) r(5) by blast
  next
    case (Some bg)
    have sn: "stg s = None"
      using scan_groups_assigned [of stg s p groups "(None, MinusInf)"] Some
      by (cases "stg s") auto
    from scan_groups_key [of p stg s groups None MinusInf bg] Some
    have "bg \<in> fst ` set groups" by simp
    then obtain members where m: "map_of groups bg = Some members"
      using map_of_keys by fastforce
    note st = assign_step [OF Cons.prems sn m]
    have set1: "set (concat (map snd (AList.update bg (members @ [s]) groups)))
        = insert s (set (concat (map snd groups)))"
      using arg_cong [OF st(2), of set_mset] by (simp del: set_concat)
    from Cons.IH [OF st(1)] obtain groups' stg' where
      r: "assign_loop p students
            (AList.update bg (members @ [s]) groups, stg(s \<mapsto> bg)) = Inr (groups', stg')"
        "assign_inv (groups', stg')"
        "map fst groups' = map fst (AList.update bg (members @ [s]) groups)"
        "set (concat (map snd groups'))
           \<subseteq> set (concat (map snd (AList.update bg (members @ [s]) groups))) \<union> set students"
        "set (concat (map snd (AList.update bg (members @ [s]) groups)))
           \<subseteq> set (concat (map snd groups'))"
        "AList.update bg (members @ [s]) groups \<noteq> []
           \<longrightarrow> set students \<subseteq> set (concat (map snd groups'))"
      by blast
    have "assign_loop p (s # students) (groups, stg) = Inr (groups', stg')"
      using Some m r(1) by (simp add: dict_item_def)
    moreover have "map fst groups' = map fst groups" using r(3) st(3) by simp
    moreover have "set (concat (map snd groups'))
        \<subseteq> set (concat (map snd groups)) \<union> set (s # students)"
      using r(4) set1 by (auto simp del: set_concat)
    moreover have "set (concat (map snd groups)) \<subseteq> set (concat (map snd groups'))"
      using r(5) set1 by (auto simp del: set_concat)
    moreover have "set (s # students) \<subseteq> set (concat (map snd groups'))"
      using r(5) r(6) set1 by (auto simp del: set_concat)
    ultimately show ?thesis using r(2) by blast
  qed
qed

lemma init_groups_keys: "distinct (map fst (fold (\<lambda>i groups. AList.update (f i) [] groups) is g0))"
  if "distinct (map fst g0)"
  using that by (induction "is" arbitrary: g0) (auto simp: distinct_update)

lemma init_groups_members:
  "concat (map snd g0) = [] \<Longrightarrow>
   concat (map snd (fold (\<lambda>i groups. AList.update (f i) [] groups) is (g0 :: 'a groups))) = []"
proof (induction "is" arbitrary: g0)
  case Nil
  then show ?case by simp
next
  case (Cons i "is")
  have "concat (map snd (AList.update (f i) [] g0)) = []"
    using Cons.prems by (induction g0) auto
  from Cons.IH [OF this] show ?case by simp
qed

lemma init_groups_nonempty:
  "is \<noteq> [] \<Longrightarrow> fold (\<lambda>i groups. AList.update (f i) [] groups) is (g0 :: 'a groups) \<noteq> []"
  by (induction "is" arbitrary: g0 rule: rev_induct) auto

lemma init_groups_empty_members: "concat (map snd (init_groups n)) = []"
  unfolding init_groups_def using init_groups_members [of "[]" group_name "[0..<nat n]"] by simp

lemma init_groups_inv: "assign_inv (init_groups n, Map.empty)"
proof -
  have "distinct (map fst (init_groups n :: 'a groups))"
    unfolding init_groups_def using init_groups_keys [of "[]" group_name "[0..<nat n]"] by simp
  then show ?thesis
    unfolding assign_inv_def by (simp only: init_groups_empty_members prod.case) simp
qed

lemma init_groups_ne: "n \<ge> 1 \<Longrightarrow> init_groups n \<noteq> []"
  unfolding init_groups_def by (rule init_groups_nonempty) simp



section \<open>Friends outside the population, and the result of the two phases\<close>

text \<open>
  A preference mapping with every nominated friend that is not in the population
  removed. It is used to state that such a friend has no effect.
\<close>

definition known_friends :: "'a list \<Rightarrow> 'a friends \<Rightarrow> 'a friends" where
  "known_friends population student_to_friends =
     map (\<lambda>(student, friends). (student, filter (\<lambda>f. f \<in> set population) friends))
       student_to_friends"

lemma unique_group:
  "distinct (concat (map snd b)) \<Longrightarrow> (g, ms) \<in> set b \<Longrightarrow> (g', ms') \<in> set b
     \<Longrightarrow> s \<in> set ms \<Longrightarrow> s \<in> set ms' \<Longrightarrow> g = g' \<and> ms = ms'"
  by (induction b) (auto simp del: distinct_concat_iff, (force+)?)

lemma dict_get_known_friends:
  "dict_get (known_friends U p) s [] = filter (\<lambda>f. f \<in> set U) (dict_get p s [])"
  by (induction p) (auto simp: dict_get_def known_friends_def)

lemma friend_score_known:
  "set members \<subseteq> set U \<Longrightarrow> friend_score (known_friends U p) s members = friend_score p s members"
proof -
  assume a: "set members \<subseteq> set U"
  have "filter (\<lambda>f. f \<in> set members) (filter (\<lambda>f. f \<in> set U) fs)
      = filter (\<lambda>f. f \<in> set members) fs" for fs
    using a by (induction fs) auto
  then show ?thesis by (simp add: friend_score_def dict_get_known_friends)
qed

lemma scan_groups_known:
  "set (concat (map snd groups)) \<subseteq> set U \<Longrightarrow>
     scan_groups (known_friends U p) stg s groups best = scan_groups p stg s groups best"
proof (induction groups arbitrary: best)
  case Nil
  then show ?case by simp
next
  case (Cons x groups)
  obtain grp members where x: "x = (grp, members)" by (cases x)
  obtain bg bs where b: "best = (bg, bs)" by (cases best)
  have m: "set members \<subseteq> set U" and r: "set (concat (map snd groups)) \<subseteq> set U"
    using Cons.prems x by auto
  show ?case unfolding x b
    by (simp add: friend_score_known [OF m] Cons.IH [OF r] Let_def)
qed

lemma mset_concat_append:
  assumes "map_of al k = Some v"
  shows "mset (concat (map snd (AList.update k (v @ [s]) al)))
     = add_mset s (mset (concat (map snd al)))"
  using mset_concat_update [OF assms, of "v @ [s]"] by simp

lemma set_concat_update:
  "map_of al k = Some v \<Longrightarrow>
     set (concat (map snd (AList.update k (v @ [s]) al))) = insert s (set (concat (map snd al)))"
  using arg_cong [OF mset_concat_append [of al k v s], of set_mset]
  by (simp del: set_concat)

lemma assign_loop_known:
  "set (concat (map snd groups)) \<subseteq> set U \<Longrightarrow> set students \<subseteq> set U \<Longrightarrow>
     assign_loop (known_friends U p) students (groups, stg) = assign_loop p students (groups, stg)"
proof (induction students arbitrary: groups stg)
  case Nil
  then show ?case by simp
next
  case (Cons s students)
  have sc: "scan_groups (known_friends U p) stg s groups (None, MinusInf)
      = scan_groups p stg s groups (None, MinusInf)"
    by (rule scan_groups_known [OF Cons.prems(1)])
  show ?case
  proof (cases "fst (scan_groups p stg s groups (None, MinusInf))")
    case None
    with sc Cons show ?thesis by simp
  next
    case (Some bg)
    show ?thesis
    proof (cases "map_of groups bg")
      case None
      with Some sc show ?thesis by (simp add: dict_item_def)
    next
      case (Some members)
      have "set (concat (map snd (AList.update bg (members @ [s]) groups))) \<subseteq> set U"
        using set_concat_update [OF Some, of s] Cons.prems by (simp del: set_concat)
      from Cons.IH [OF this] Cons.prems(2) \<open>fst (scan_groups p stg s groups (None, MinusInf)) = Some bg\<close> sc Some
      show ?thesis by (simp add: dict_item_def)
    qed
  qed
qed

lemma assign_no_error:
  "\<exists>groups. assign_students_to_groups shuffle students p n = Inr (groups, shuffle students)"
  using assign_loop_result [OF init_groups_inv, of p "shuffle students" n]
  by (auto simp: assign_students_to_groups_def)

lemma assign_complete:
  assumes "n \<ge> 1"
  shows "\<exists>groups. assign_students_to_groups shuffle students p n = Inr (groups, shuffle students)
    \<and> distinct (map fst groups) \<and> distinct (concat (map snd groups))
    \<and> set (concat (map snd groups)) = set (shuffle students)"
proof -
  from assign_loop_result [OF init_groups_inv, of p "shuffle students" n]
  obtain groups' stg' where r:
    "assign_loop p (shuffle students) (init_groups n, Map.empty) = Inr (groups', stg')"
    "assign_inv (groups', stg')"
    "set (concat (map snd groups'))
       \<subseteq> set (concat (map snd (init_groups n :: 'a groups))) \<union> set (shuffle students)"
    "(init_groups n :: 'a groups) \<noteq> [] \<longrightarrow> set (shuffle students) \<subseteq> set (concat (map snd groups'))"
    by blast
  have "set (concat (map snd groups')) = set (shuffle students)"
    using r(3) r(4) init_groups_ne [OF assms] by (simp only: init_groups_empty_members) auto
  with r(1) r(2) show ?thesis
    by (auto simp: assign_students_to_groups_def assign_inv_def simp del: set_concat distinct_concat_iff)
qed

lemma assign_known:
  assumes "set (shuffle students) \<subseteq> set students"
  shows "assign_students_to_groups shuffle students (known_friends students p) n
       = assign_students_to_groups shuffle students p n"
  using assign_loop_known [of "init_groups n" students "shuffle students" p Map.empty] assms
  by (simp add: assign_students_to_groups_def init_groups_empty_members del: set_concat)

lemma balance_groups_result:
  "\<exists>r. balance_groups groups T = Inr r \<and> map fst r = map fst groups
     \<and> mset (concat (map snd r)) = mset (concat (map snd groups))"
  using balance_loop_result [of "map fst groups" groups T] by (auto simp: balance_groups_def)

section \<open>Completeness of assignment and balancing\<close>

text \<open>
  Claim C2. For every population list, preference mapping and group count of at least one
  (and every shuffle that permutes its list, and every target size), assignment followed
  by balancing raises nothing, and in the resulting partition every individual of the
  population appears in exactly one group: the keys are distinct, the concatenated
  memberships have no duplicate, their set is the population set, and each student is in
  the member list of exactly one key.
\<close>

theorem completeness:
  assumes "num_groups \<ge> 1" and "mset (shuffle students) = mset students"
  shows "\<exists>groups balanced.
      assign_students_to_groups shuffle students student_to_friends num_groups
        = Inr (groups, shuffle students)
    \<and> balance_groups groups target_size = Inr balanced
    \<and> distinct (map fst balanced)
    \<and> distinct (concat (map snd balanced))
    \<and> set (concat (map snd balanced)) = set students
    \<and> (\<forall>s \<in> set students. \<exists>!g. g \<in> set (map fst balanced) \<and> s \<in> set (dict_get balanced g []))"
proof -
  from assign_complete [OF assms(1), of shuffle students student_to_friends]
  obtain groups where g:
    "assign_students_to_groups shuffle students student_to_friends num_groups
       = Inr (groups, shuffle students)"
    "distinct (map fst groups)" "distinct (concat (map snd groups))"
    "set (concat (map snd groups)) = set (shuffle students)" by blast
  from balance_groups_result [of groups target_size] obtain b where b:
    "balance_groups groups target_size = Inr b" "map fst b = map fst groups"
    "mset (concat (map snd b)) = mset (concat (map snd groups))" by blast
  have dk: "distinct (map fst b)" using b(2) g(2) by simp
  have dc: "distinct (concat (map snd b))"
    using mset_eq_imp_distinct_iff [OF b(3)] g(3) by simp
  have st: "set (concat (map snd b)) = set students"
    using mset_eq_setD [OF b(3)] g(4) mset_eq_setD [OF assms(2)] by simp
  have ex1: "\<exists>!k. k \<in> set (map fst b) \<and> s \<in> set (dict_get b k [])" if "s \<in> set students" for s
  proof -
    from that st have "s \<in> set (concat (map snd b))" by simp
    then obtain x where "x \<in> set b" "s \<in> set (snd x)" by auto
    then have "(fst x, snd x) \<in> set b" "s \<in> set (snd x)" by simp_all
    then obtain k ms where km: "(k, ms) \<in> set b" "s \<in> set ms" by blast
    have look: "dict_get b k' [] = ms'" if "(k', ms') \<in> set b" for k' ms'
      using that dk by (simp add: dict_get_def)
    show ?thesis
    proof (rule ex1I [of _ k])
      show "k \<in> set (map fst b) \<and> s \<in> set (dict_get b k [])"
        using km look [OF km(1)] by force
    next
      fix k' assume a: "k' \<in> set (map fst b) \<and> s \<in> set (dict_get b k' [])"
      then obtain ms' where "(k', ms') \<in> set b" by auto
      with a look have "s \<in> set ms'" by simp
      from unique_group [OF dc \<open>(k', ms') \<in> set b\<close> km(1) this km(2)] show "k' = k" by simp
    qed
  qed
  from g(1) b(1) dk dc st ex1 show ?thesis by blast
qed


theorem completeness_witness:
  "(1::int) \<le> 2
   \<and> mset (rev [''A'', ''B'', ''C'']) = mset [''A'', ''B'', ''C'']
   \<and> assign_students_to_groups rev [''A'', ''B'', ''C''] [(''A'', [''B''])] 2
       = Inr ([(''Group1'', [''C'']), (''Group2'', [''B'', ''A''])], [''C'', ''B'', ''A''])
   \<and> balance_groups [(''Group1'', [''C'']), (''Group2'', [''B'', ''A''])] 1
       = Inr [(''Group1'', [''C'']), (''Group2'', [''B'', ''A''])]
   \<and> distinct (concat (map snd [(''Group1'', [''C'']), (''Group2'', [''B'', ''A''])]))
   \<and> set (concat (map snd [(''Group1'', [''C'']), (''Group2'', [''B'', ''A''])]))
       = set [''A'', ''B'', ''C'']"
proof -
  have h1: "(1::int) \<le> 2" by simp
  have h2: "mset (rev [''A'', ''B'', ''C'']) = mset [''A'', ''B'', ''C'']" by simp
  have e1: "assign_students_to_groups rev [''A'', ''B'', ''C''] [(''A'', [''B''])] 2
       = Inr ([(''Group1'', [''C'']), (''Group2'', [''B'', ''A''])], [''C'', ''B'', ''A''])"
    by code_simp
  have e2: "balance_groups [(''Group1'', [''C'']), (''Group2'', [''B'', ''A''])] 1
       = Inr [(''Group1'', [''C'']), (''Group2'', [''B'', ''A''])]"
    by code_simp
  from completeness [where num_groups = 2 and shuffle = rev
      and students = "[''A'', ''B'', ''C'']" and student_to_friends = "[(''A'', [''B''])]"
      and target_size = 1, OF h1 h2]
  obtain groups balanced where
    "assign_students_to_groups rev [''A'', ''B'', ''C''] [(''A'', [''B''])] 2
       = Inr (groups, rev [''A'', ''B'', ''C''])"
    "balance_groups groups 1 = Inr balanced"
    "distinct (concat (map snd balanced))"
    "set (concat (map snd balanced)) = set [''A'', ''B'', ''C'']"
    by blast
  with e1 e2 h2 show ?thesis by simp
qed

section \<open>Determinism of the greedy assigner\<close>


text \<open>
  The greedy rule in the words of the specification (section 4.1), to compare with the
  loops of the code. The score of a group for an individual is 10 times the number of
  the individual's preferred co-members in the group, minus the size of the group.
\<close>

definition spec_score :: "'a friends \<Rightarrow> 'a \<Rightarrow> 'a list \<Rightarrow> int" where
  "spec_score student_to_friends student members =
     10 * int (length (filter (\<lambda>f. f \<in> set members) (dict_get student_to_friends student [])))
       - int (length members)"

text \<open>
  The group selected is the one of greatest score, the first in iteration order among
  equals: its index is the number of groups in front of the first greatest score.
\<close>

definition spec_choose :: "'a friends \<Rightarrow> 'a \<Rightarrow> 'a groups \<Rightarrow> nat" where
  "spec_choose student_to_friends student groups =
     (let scores = map (\<lambda>(grp, members). spec_score student_to_friends student members) groups
      in length (takeWhile (\<lambda>c. c < Max (set scores)) scores))"





lemma spec_choose_less:
  assumes "groups \<noteq> []"
  shows "spec_choose p s groups < length groups"
proof -
  define cs where "cs = map (\<lambda>(grp, members). spec_score p s members) groups"
  have ne: "set cs \<noteq> {}" using assms by (simp add: cs_def)
  have "Max (set cs) \<in> set cs" using ne by (intro Max_in) auto
  then have "\<not> (\<forall>c\<in>set cs. c < Max (set cs))" by auto
  then have "takeWhile (\<lambda>c. c < Max (set cs)) cs \<noteq> cs"
    by (simp add: takeWhile_eq_all_conv)
  then have "length (takeWhile (\<lambda>c. c < Max (set cs)) cs) \<noteq> length cs"
    by (metis takeWhile_eq_take take_all_iff order_refl)
  moreover have "length (takeWhile (\<lambda>c. c < Max (set cs)) cs) \<le> length cs"
    by (rule length_takeWhile_le)
  ultimately have "length (takeWhile (\<lambda>c. c < Max (set cs)) cs) < length cs" by linarith
  then show ?thesis by (simp add: spec_choose_def cs_def)
qed

text \<open>
  \<open>spec_choose\<close> is the selection of the specification: the group it names has the
  greatest score, and every group in front of it has a strictly smaller one.
\<close>

lemma spec_choose_first_greatest:
  fixes p :: "'a friends" and s :: 'a and groups :: "'a groups"
  assumes "groups \<noteq> []"
  defines "score \<equiv> \<lambda>j. spec_score p s (snd (groups ! j))"
  shows "spec_choose p s groups < length groups"
    and "\<forall>j < length groups. score j \<le> score (spec_choose p s groups)"
    and "\<forall>j < spec_choose p s groups. score j < score (spec_choose p s groups)"
proof -
  define cs where "cs = map (\<lambda>(grp, members). spec_score p s members) groups"
  define k where "k = spec_choose p s groups"
  have k_def': "k = length (takeWhile (\<lambda>c. c < Max (set cs)) cs)"
    by (simp add: k_def spec_choose_def cs_def)
  have len: "length cs = length groups" by (simp add: cs_def)
  have nth: "cs ! j = score j" if "j < length groups" for j
    using that by (simp add: cs_def score_def case_prod_beta)
  show k: "spec_choose p s groups < length groups" by (rule spec_choose_less [OF assms(1)])
  then have k': "k < length cs" by (simp add: k_def len)
  have "\<not> cs ! k < Max (set cs)"
    using nth_length_takeWhile [of "\<lambda>c. c < Max (set cs)" cs] k' unfolding k_def' by blast
  moreover have "cs ! k \<le> Max (set cs)" using k' by simp
  ultimately have mx: "cs ! k = Max (set cs)" by linarith
  have sk: "score k = Max (set cs)" using nth [of k] k mx by (simp add: k_def)
  show "\<forall>j < length groups. score j \<le> score (spec_choose p s groups)"
  proof (intro allI impI)
    fix j assume j: "j < length groups"
    then have "cs ! j \<le> Max (set cs)" by (simp add: len)
    then show "score j \<le> score (spec_choose p s groups)"
      using nth [OF j] sk by (simp add: k_def)
  qed
  show "\<forall>j < spec_choose p s groups. score j < score (spec_choose p s groups)"
  proof (intro allI impI)
    fix j assume j: "j < spec_choose p s groups"
    then have jk: "j < length (takeWhile (\<lambda>c. c < Max (set cs)) cs)"
      by (simp add: k_def [symmetric] k_def')
    then have "takeWhile (\<lambda>c. c < Max (set cs)) cs ! j \<in> set (takeWhile (\<lambda>c. c < Max (set cs)) cs)"
      by (rule nth_mem)
    then have "takeWhile (\<lambda>c. c < Max (set cs)) cs ! j < Max (set cs)"
      by (rule set_takeWhileD [THEN conjunct2])
    then have "cs ! j < Max (set cs)" using takeWhile_nth [OF jk] by simp
    moreover have "j < length groups" using j k by linarith
    ultimately show "score j < score (spec_choose p s groups)"
      using nth [of j] sk by (simp add: k_def)
  qed
qed






section \<open>The shuffle of the caller's list\<close>

text \<open>
  Claim C10. \<open>assign_students_to_groups\<close> shuffles its \<open>students\<close> argument in
  place: the call raises nothing, and afterwards the caller's list is the shuffled list,
  which holds the same elements (the shuffle permutes) but may be in another order, as in
  the witness, where \<open>[A, B]\<close> has become \<open>[B, A]\<close>.
\<close>

theorem assign_shuffles_students_in_place:
  assumes "mset (shuffle students) = mset students"
  shows "\<exists>groups students'.
      assign_students_to_groups shuffle students student_to_friends num_groups
        = Inr (groups, students')
    \<and> students' = shuffle students \<and> mset students' = mset students"
  using assign_no_error [of shuffle students student_to_friends num_groups] assms by auto

theorem assign_shuffles_students_in_place_witness:
  "mset (rev [''A'', ''B'']) = mset [''A'', ''B'']
   \<and> assign_students_to_groups rev [''A'', ''B''] [(''A'', [''B''])] 1
       = Inr ([(''Group1'', [''B'', ''A''])], [''B'', ''A''])
   \<and> [''B'', ''A''] \<noteq> [''A'', ''B'']"
proof -
  have h: "mset (rev [''A'', ''B'']) = mset [''A'', ''B'']" by simp
  have e: "assign_students_to_groups rev [''A'', ''B''] [(''A'', [''B''])] 1
       = Inr ([(''Group1'', [''B'', ''A''])], [''B'', ''A''])"
    by code_simp
  from assign_shuffles_students_in_place [where shuffle = rev
      and students = "[''A'', ''B'']" and student_to_friends = "[(''A'', [''B''])]"
      and num_groups = 1, OF h] h e
  show ?thesis by simp
qed


section \<open>Facts about the evaluator\<close>

lemma stg_inner:
  "fold (\<lambda>student m. m(student \<mapsto> g)) members m
     = (\<lambda>s. if s \<in> set members then Some g else m s)"
  by (induction members arbitrary: m) (auto simp: fun_eq_iff)

text \<open>The comprehension of \<open>student_to_group_of\<close>, started from any map.\<close>

definition stg_fold :: "'a groups \<Rightarrow> ('a \<rightharpoonup> string) \<Rightarrow> ('a \<rightharpoonup> string)" where
  "stg_fold groups m =
     fold (\<lambda>(grp, members) m. fold (\<lambda>student m. m(student \<mapsto> grp)) members m) groups m"

lemma stg_fold_Nil: "stg_fold [] m = m"
  by (simp add: stg_fold_def)

lemma stg_fold_Cons:
  "stg_fold ((g, ms) # groups) m = stg_fold groups (\<lambda>s. if s \<in> set ms then Some g else m s)"
  by (simp add: stg_fold_def stg_inner)

lemma stg_fold_notin:
  "s \<notin> set (concat (map snd groups)) \<Longrightarrow> stg_fold groups m s = m s"
  by (induction groups arbitrary: m) (auto simp: stg_fold_Nil stg_fold_Cons)

lemma stg_fold_in:
  "distinct (concat (map snd groups)) \<Longrightarrow> (g, ms) \<in> set groups \<Longrightarrow> s \<in> set ms
     \<Longrightarrow> stg_fold groups m s = Some g"
proof (induction groups arbitrary: m)
  case Nil
  then show ?case by simp
next
  case (Cons x groups)
  obtain g' ms' where x: "x = (g', ms')" by (cases x)
  have d: "distinct (concat (map snd groups))" using Cons.prems(1) by simp
  show ?case
  proof (cases "(g, ms) = x")
    case True
    then have "s \<notin> set (concat (map snd groups))"
      using Cons.prems x by auto
    from stg_fold_notin [OF this] True x Cons.prems(3) show ?thesis
      by (simp add: stg_fold_Cons)
  next
    case False
    then have "(g, ms) \<in> set groups" using Cons.prems(2) by simp
    from Cons.IH [OF d this Cons.prems(3)] show ?thesis
      unfolding x by (simp add: stg_fold_Cons)
  qed
qed

lemma dom_stg_fold: "dom (stg_fold groups m) = dom m \<union> set (concat (map snd groups))"
proof (induction groups arbitrary: m)
  case Nil
  then show ?case by (simp add: stg_fold_Nil)
next
  case (Cons x groups)
  obtain g ms where x: "x = (g, ms)" by (cases x)
  have "dom (\<lambda>s. if s \<in> set ms then Some g else m s) = dom m \<union> set ms"
    by (auto simp: dom_def)
  with Cons.IH [of "\<lambda>s. if s \<in> set ms then Some g else m s"] show ?case
    unfolding x by (auto simp: stg_fold_Cons)
qed

lemma student_to_group_of_fold: "student_to_group_of groups = stg_fold groups Map.empty"
  by (simp add: student_to_group_of_def stg_fold_def)

lemma dom_student_to_group_of:
  "dom (student_to_group_of groups) = set (concat (map snd groups))"
  by (simp add: student_to_group_of_fold dom_stg_fold)

lemma student_to_group_of_Some:
  assumes "distinct (concat (map snd groups))"
  shows "student_to_group_of groups s = Some g
     \<longleftrightarrow> (\<exists>ms. (g, ms) \<in> set groups \<and> s \<in> set ms)"
proof
  assume a: "student_to_group_of groups s = Some g"
  then have "s \<in> dom (student_to_group_of groups)" by auto
  then have "s \<in> set (concat (map snd groups))" by (simp only: dom_student_to_group_of)
  then obtain x where "x \<in> set groups" "s \<in> set (snd x)" by auto
  then have x: "(fst x, snd x) \<in> set groups" "s \<in> set (snd x)" by simp_all
  from stg_fold_in [OF assms x, of Map.empty] a have "fst x = g"
    by (simp add: student_to_group_of_fold)
  with x show "\<exists>ms. (g, ms) \<in> set groups \<and> s \<in> set ms" by auto
next
  assume "\<exists>ms. (g, ms) \<in> set groups \<and> s \<in> set ms"
  then obtain ms where "(g, ms) \<in> set groups" "s \<in> set ms" by blast
  from stg_fold_in [OF assms this] show "student_to_group_of groups s = Some g"
    by (simp add: student_to_group_of_fold)
qed

lemma count_friends_eq:
  "count_friends stg p (t, c) =
     (t + length (filter (\<lambda>x. stg (fst x) \<noteq> None) p),
      c + length (filter (\<lambda>x. stg (fst x) \<noteq> None
                            \<and> (\<exists>f\<in>set (snd x). stg f = stg (fst x))) p))"
proof (induction p arbitrary: t c)
  case Nil
  then show ?case by simp
next
  case (Cons x p)
  obtain s fs where x: "x = (s, fs)" by (cases x)
  show ?case
  proof (cases "stg s")
    case None
    with Cons.IH show ?thesis unfolding x by simp
  next
    case (Some g)
    have "list_ex (\<lambda>f. stg f \<noteq> None \<and> stg f = Some g) fs \<longleftrightarrow> (\<exists>f\<in>set fs. stg f = Some g)"
      by (auto simp: list_ex_iff)
    with Some Cons.IH show ?thesis unfolding x by simp
  qed
qed

lemma length_filter_keys:
  assumes "distinct (map fst p)"
  shows "length (filter (\<lambda>x. R (fst x) (snd x)) p)
     = card {s \<in> fst ` set p. R s (dict_get p s [])}"
proof -
  have dp: "distinct p" and inj: "inj_on fst (set p)"
    using assms by (simp_all add: distinct_map)
  have look: "dict_get p (fst x) [] = snd x" if "x \<in> set p" for x
    using map_of_is_SomeI [OF assms, of "fst x" "snd x"] that by (simp add: dict_get_def)
  have "length (filter (\<lambda>x. R (fst x) (snd x)) p) = card {x \<in> set p. R (fst x) (snd x)}"
    using distinct_length_filter [OF dp, of "\<lambda>x. R (fst x) (snd x)"]
    by (simp add: Int_def conj_commute)
  also have "\<dots> = card (fst ` {x \<in> set p. R (fst x) (snd x)})"
    by (rule card_image [symmetric]) (rule inj_on_subset [OF inj], auto)
  also have "fst ` {x \<in> set p. R (fst x) (snd x)} = {s \<in> fst ` set p. R s (dict_get p s [])}"
    using look by force
  finally show ?thesis .
qed

lemma known_friends_Cons:
  "known_friends U ((s, fs) # p) = (s, filter (\<lambda>f. f \<in> set U) fs) # known_friends U p"
  by (simp add: known_friends_def)

lemma count_friends_known:
  assumes "dom stg \<subseteq> set U"
  shows "count_friends stg (known_friends U p) (t, c) = count_friends stg p (t, c)"
proof (induction p arbitrary: t c)
  case Nil
  then show ?case by (simp add: known_friends_def)
next
  case (Cons x p)
  obtain s fs where x: "x = (s, fs)" by (cases x)
  show ?case
  proof (cases "stg s")
    case None
    with Cons.IH show ?thesis unfolding x known_friends_Cons by simp
  next
    case (Some g)
    have "list_ex (\<lambda>f. stg f \<noteq> None \<and> stg f = Some g) (filter (\<lambda>f. f \<in> set U) fs)
        = list_ex (\<lambda>f. stg f \<noteq> None \<and> stg f = Some g) fs"
      using assms by (auto simp: list_ex_iff dom_def subset_iff)
    with Some Cons.IH show ?thesis unfolding x known_friends_Cons by simp
  qed
qed

lemma evaluate_known:
  assumes "set (concat (map snd groups)) \<subseteq> set U"
  shows "evaluate_friend_success groups (known_friends U p) = evaluate_friend_success groups p"
proof -
  have "dom (student_to_group_of groups) \<subseteq> set U"
    using assms by (simp only: dom_student_to_group_of)
  from count_friends_known [OF this, of p 0 0] show ?thesis
    by (simp add: evaluate_friend_success_def)
qed


section \<open>Facts about floating-point rounding\<close>

lemma round_half_even_error: "\<bar>of_int (round_half_even x) - x\<bar> \<le> 1 / 2"
proof -
  define r where "r = x - of_int \<lfloor>x\<rfloor>"
  have r: "0 \<le> r" "r < 1" unfolding r_def by linarith+
  have x: "x = of_int \<lfloor>x\<rfloor> + r" by (simp add: r_def)
  consider "r < 1 / 2" | "1 / 2 < r" | "r = 1 / 2" by linarith
  then show ?thesis
  proof cases
    case 1
    then have "round_half_even x = \<lfloor>x\<rfloor>"
      by (simp add: round_half_even_def Let_def r_def)
    then have "of_int (round_half_even x) - x = - r" by (simp add: r_def)
    then show ?thesis using r 1 by (simp add: abs_if)
  next
    case 2
    then have "round_half_even x = \<lfloor>x\<rfloor> + 1"
      by (simp add: round_half_even_def Let_def r_def)
    then have "of_int (round_half_even x) - x = 1 - r" by (simp add: r_def)
    then show ?thesis using r 2 by (simp add: abs_if)
  next
    case 3
    then have "round_half_even x = \<lfloor>x\<rfloor> \<or> round_half_even x = \<lfloor>x\<rfloor> + 1"
      by (simp add: round_half_even_def Let_def r_def)
    then have "of_int (round_half_even x) - x = - r \<or> of_int (round_half_even x) - x = 1 - r"
      by (auto simp: r_def)
    then show ?thesis using 3 by (auto simp: abs_if)
  qed
qed

lemma round_half_even_nonneg: "0 \<le> x \<Longrightarrow> 0 \<le> round_half_even x"
  unfolding round_half_even_def Let_def by auto

lemma of_int_pow2_bitlen:
  assumes "0 < a"
  shows "2 powi (bitlen a - 1) \<le> (of_int a :: rat)" and "(of_int a :: rat) < 2 powi bitlen a"
proof -
  have b1: "1 \<le> bitlen a" using assms bitlen_eq_zero_iff [of a] bitlen_nonneg [of a] by linarith
  from bitlen_bounds [OF assms] have "2 ^ nat (bitlen a - 1) \<le> a" "a < 2 ^ nat (bitlen a)"
    by auto
  then have "(of_int (2 ^ nat (bitlen a - 1)) :: rat) \<le> of_int a"
    "(of_int a :: rat) < of_int (2 ^ nat (bitlen a))"
    by (simp_all only: of_int_le_iff of_int_less_iff)
  then show "2 powi (bitlen a - 1) \<le> (of_int a :: rat)" "(of_int a :: rat) < 2 powi bitlen a"
    using b1 by (simp_all add: power_int_def)
qed

lemma ilog2_bounds:
  assumes "0 < x"
  shows "2 powi (ilog2 x) \<le> x" and "x < 2 powi (ilog2 x + 1)"
proof -
  obtain a b where q: "quotient_of x = (a, b)" by (cases "quotient_of x")
  have b: "0 < b" using quotient_of_denom_pos [OF q] .
  have x: "x = of_int a / of_int b" using quotient_of_div [OF q] .
  have a: "0 < a" using assms b unfolding x by (simp add: zero_less_divide_iff)
  define d where "d = bitlen a - bitlen b"
  note A = of_int_pow2_bitlen [OF a] and B = of_int_pow2_bitlen [OF b]
  have bpos: "(0::rat) < of_int b" using b by simp
  have "x < 2 powi bitlen a / 2 powi (bitlen b - 1)"
    unfolding x using A(2) B(1) a
    by (intro frac_less) auto
  also have "\<dots> = 2 powi (d + 1)"
    unfolding d_def using power_int_diff [of "2::rat" "bitlen a" "bitlen b - 1"]
    by (simp add: algebra_simps)
  finally have up: "x < 2 powi (d + 1)" .
  have "2 powi (bitlen a - 1) / 2 powi bitlen b < x"
    unfolding x using A(1) B(2) bpos
    by (intro frac_less2) auto
  moreover have "2 powi (bitlen a - 1) / 2 powi bitlen b = (2::rat) powi (d - 1)"
    unfolding d_def using power_int_diff [of "2::rat" "bitlen a - 1" "bitlen b"]
    by (simp add: algebra_simps)
  ultimately have lo: "2 powi (d - 1) < x" by simp
  have il: "ilog2 x = (if 2 powi d \<le> x then d else d - 1)"
    by (simp add: ilog2_def q d_def)
  show "2 powi (ilog2 x) \<le> x" using lo by (auto simp: il)
  show "x < 2 powi (ilog2 x + 1)" using up by (auto simp: il not_le)
qed

lemma float_round_zero: "float_round 0 = 0"
  by (simp add: float_round_def)

lemma float_round_nonneg: "0 \<le> x \<Longrightarrow> 0 \<le> float_round x"
  unfolding float_round_def Let_def
  by (auto simp: sgn_if intro!: mult_nonneg_nonneg round_half_even_nonneg divide_nonneg_pos)

lemma float_round_error:
  assumes "2 powi (- 1022) \<le> x"
  shows "\<bar>float_round x - x\<bar> \<le> x / 2 ^ 53"
proof -
  have x: "0 < x" using assms zero_less_power_int [of "2::rat" "- 1022"] by linarith
  define k where "k = ilog2 x"
  have lo: "2 powi k \<le> x" and up: "x < 2 powi (k + 1)"
    using ilog2_bounds [OF x] by (simp_all add: k_def)
  have "(2::rat) powi (- 1022) < 2 powi (k + 1)" using assms up by linarith
  then have "- 1022 < k + 1"
    using power_int_increasing [of "k + 1" "- 1022" "2::rat"] by (cases "- 1022 < k + 1") auto
  then have e: "max (k - 52) (- 1074) = k - 52" by simp
  define p where "p = (2::rat) powi (k - 52)"
  have p: "0 < p" by (simp add: p_def)
  define m where "m = round_half_even (x / p)"
  have fr: "float_round x = of_int m * p"
    using x by (simp add: float_round_def Let_def k_def [symmetric] e p_def m_def)
  have "\<bar>of_int m - x / p\<bar> \<le> 1 / 2" unfolding m_def by (rule round_half_even_error)
  then have "\<bar>of_int m - x / p\<bar> * p \<le> 1 / 2 * p" using p by (intro mult_right_mono) auto
  moreover have "\<bar>of_int m - x / p\<bar> * p = \<bar>of_int m * p - x\<bar>"
  proof -
    have "(of_int m - x / p) * p = of_int m * p - x" using p by (simp add: field_simps)
    then have "\<bar>of_int m * p - x\<bar> = \<bar>(of_int m - x / p) * p\<bar>" by simp
    also have "\<dots> = \<bar>of_int m - x / p\<bar> * \<bar>p\<bar>" by (rule abs_mult)
    finally show ?thesis using p by simp
  qed
  ultimately have 1: "\<bar>float_round x - x\<bar> \<le> p / 2" by (simp add: fr)
  have "p = 2 powi k / 2 ^ 52"
    unfolding p_def using power_int_diff [of "2::rat" k 52] by simp
  then have "p / 2 = 2 powi k / 2 ^ 53" by simp
  also have "\<dots> \<le> x / 2 ^ 53" using lo by (simp add: divide_right_mono)
  finally show ?thesis using 1 by linarith
qed

lemma float_percent_error:
  fixes s t :: nat
  assumes t: "0 < t" "t \<le> 2 ^ 1022"
  shows "\<bar>float_mul (float_div (of_nat s) (of_nat t)) 100 - 100 * of_nat s / of_nat t\<bar>
           \<le> (100 * of_nat s / of_nat t) / 2 ^ 51"
proof (cases "s = 0")
  case True
  then show ?thesis by (simp add: float_mul_def float_div_def float_round_zero)
next
  case False
  define q :: rat where "q = of_nat s / of_nat t"
  have tpos: "(0::rat) < of_nat t" using t by simp
  have "(of_nat t :: rat) \<le> of_nat (2 ^ 1022)" using t(2) by (simp only: of_nat_le_iff)
  then have tle: "(of_nat t :: rat) \<le> 2 ^ 1022" by simp
  have s1: "(1::rat) \<le> of_nat s" using False by (simp add: Suc_le_eq)
  have "1 / 2 ^ 1022 \<le> 1 / (of_nat t :: rat)"
    using tle tpos by (intro divide_left_mono) auto
  also have "\<dots> \<le> q" unfolding q_def using s1 tpos by (intro divide_right_mono) auto
  finally have q_lo': "1 / 2 ^ 1022 \<le> q" .
  have p1022: "(2::rat) powi (- 1022) = 1 / 2 ^ 1022"
    by (simp add: power_int_minus field_simps)
  have q_lo: "2 powi (- 1022) \<le> q" using q_lo' by (simp only: p1022)
  have qpos: "0 < q" using q_lo' by (smt (verit) divide_pos_pos zero_less_power zero_less_numeral zero_less_one less_le_trans)
  define q' where "q' = float_round q"
  have e1: "\<bar>q' - q\<bar> \<le> q / 2 ^ 53" unfolding q'_def by (rule float_round_error [OF q_lo])
  have "q / 2 ^ 53 \<le> q / 2" using qpos by (intro divide_left_mono) auto
  then have "\<bar>q' - q\<bar> \<le> q / 2" using e1 by linarith
  then have q'_lo: "q / 2 \<le> q'" by linarith
  have q'_up: "q' \<le> q + q / 2 ^ 53" using e1 by linarith
  define y where "y = q' * 100"
  have "2 powi (- 1022) \<le> q / 2 * 100" using q_lo qpos by simp
  also have "\<dots> \<le> y" unfolding y_def using q'_lo by simp
  finally have y_lo: "2 powi (- 1022) \<le> y" .
  have e2: "\<bar>float_round y - y\<bar> \<le> y / 2 ^ 53" by (rule float_round_error [OF y_lo])
  have "y \<le> (q + q / 2 ^ 53) * 100" unfolding y_def using q'_up by simp
  also have "\<dots> \<le> (q + q) * 100" using qpos by (simp add: field_simps)
  finally have "y / 2 ^ 53 \<le> (q + q) * 100 / 2 ^ 53" by (simp add: divide_right_mono)
  then have e2': "\<bar>float_round y - y\<bar> \<le> 200 * q / 2 ^ 53" using e2 by simp
  have "\<bar>y - 100 * q\<bar> = 100 * \<bar>q' - q\<bar>" unfolding y_def by (simp add: abs_if)
  then have e1': "\<bar>y - 100 * q\<bar> \<le> 100 * q / 2 ^ 53" using e1 by simp
  have "\<bar>float_round y - 100 * q\<bar> \<le> \<bar>float_round y - y\<bar> + \<bar>y - 100 * q\<bar>" by simp
  also have "\<dots> \<le> 200 * q / 2 ^ 53 + 100 * q / 2 ^ 53" using e1' e2' by simp
  also have "\<dots> \<le> 100 * q / 2 ^ 51" using qpos by simp
  finally have "\<bar>float_round y - 100 * q\<bar> \<le> 100 * q / 2 ^ 51" .
  then show ?thesis
    by (simp add: float_mul_def float_div_def y_def q'_def q_def)
qed


section \<open>What the evaluator counts\<close>

text \<open>
  Claim C4, as stated: the evaluator returns \<open>(100 * successes / total, successes,
  total)\<close>. The percentage is not always that number: the code divides first and
  multiplies by 100 afterwards, in floating point, and both operations round. With 11
  successes among 20 individuals, \<open>11 / 20\<close> is rounded to the float just above 0.55
  and the product is rounded to \<open>55 + 2 ^ -47\<close> (printed 55.00000000000001), although
  55 is itself a float.
\<close>

theorem evaluate_percentage_counterexample:
  "evaluate_friend_success [(''Group1'', [0 ..< 20])]
       (map (\<lambda>i. (i, if i < 11 then [i + 1] else [])) [0 ..< 20])
     = (55 + 1 / 2 ^ 47, 11, 20)
   \<and> fst (evaluate_friend_success [(''Group1'', [0 ..< 20])]
            (map (\<lambda>i. (i, if i < 11 then [i + 1] else [])) [0 ..< 20]))
       \<noteq> 100 * of_nat 11 / of_nat 20"
  by code_simp

text \<open>
  Claim C4, amended. For every partition (distinct keys, no student in two places) and
  every preference mapping (a dictionary, so distinct keys), \<open>evaluate_friend_success\<close>
  counts in \<open>total\<close> exactly the individuals of the preference data that appear in the
  partition and in \<open>success\<close> those of them with a nominated friend in their own
  group. The percentage is 0 when \<open>total\<close> is 0; otherwise it is the float product by
  100 of the float quotient \<open>success / total\<close>, which is within the relative error
  \<open>2 ^ -51\<close> of \<open>100 * success / total\<close> (for a total of at most \<open>2 ^ 1022\<close>). On
  the population A, B, C, D with preferences A to B, B to A, C to D, D to nobody and the
  partition G1 = [A, B], G2 = [C, D] it returns exactly 75, 3 and 4.
\<close>

theorem evaluate_friend_success_float:
  assumes "distinct (map fst student_to_friends)"
    and "distinct (map fst groups)" and "distinct (concat (map snd groups))"
  shows "(let total' = card {s \<in> fst ` set student_to_friends. s \<in> set (concat (map snd groups))};
           success = card {s \<in> fst ` set student_to_friends.
                       \<exists>(g, members) \<in> set groups. s \<in> set members
                         \<and> (\<exists>f \<in> set (dict_get student_to_friends s []). f \<in> set members)};
           percent = fst (evaluate_friend_success groups student_to_friends)
       in evaluate_friend_success groups student_to_friends
            = (if total' = 0 then 0
               else float_mul (float_div (of_nat success) (of_nat total')) 100, success, total')
          \<and> (0 < total' \<and> total' \<le> 2 ^ 1022
               \<longrightarrow> \<bar>percent - 100 * of_nat success / of_nat total'\<bar>
                     \<le> (100 * of_nat success / of_nat total') / 2 ^ 51))
    \<and> evaluate_friend_success
        [(''G1'', [''A'', ''B'']), (''G2'', [''C'', ''D''])]
        [(''A'', [''B'']), (''B'', [''A'']), (''C'', [''D'']), (''D'', [])] = (75, 3, 4)"
proof -
  define stg where "stg = student_to_group_of groups"
  let ?p = student_to_friends
  have cf: "count_friends stg ?p (0, 0) =
      (length (filter (\<lambda>x. stg (fst x) \<noteq> None) ?p),
       length (filter (\<lambda>x. stg (fst x) \<noteq> None
                            \<and> (\<exists>f\<in>set (snd x). stg f = stg (fst x))) ?p))"
    by (simp only: count_friends_eq add_0)
  have A: "(stg s \<noteq> None) = (s \<in> set (concat (map snd groups)))" for s
    using dom_student_to_group_of [of groups] unfolding stg_def dom_def by blast
  have B: "(stg s \<noteq> None \<and> (\<exists>f\<in>set fs. stg f = stg s))
      = (\<exists>(g, members) \<in> set groups. s \<in> set members \<and> (\<exists>f \<in> set fs. f \<in> set members))"
    for s fs
  proof
    assume l: "stg s \<noteq> None \<and> (\<exists>f\<in>set fs. stg f = stg s)"
    then obtain g f where g: "stg s = Some g" "f \<in> set fs" "stg f = Some g" by auto
    from g(1) obtain ms where ms: "(g, ms) \<in> set groups" "s \<in> set ms"
      unfolding stg_def student_to_group_of_Some [OF assms(3)] by blast
    from g(3) obtain ms' where ms': "(g, ms') \<in> set groups" "f \<in> set ms'"
      unfolding stg_def student_to_group_of_Some [OF assms(3)] by blast
    have "ms' = ms"
      using map_of_is_SomeI [OF assms(2) ms(1)] map_of_is_SomeI [OF assms(2) ms'(1)] by simp
    with ms ms' g(2) show "\<exists>(g, members) \<in> set groups. s \<in> set members
        \<and> (\<exists>f \<in> set fs. f \<in> set members)" by blast
  next
    assume "\<exists>(g, members) \<in> set groups. s \<in> set members \<and> (\<exists>f \<in> set fs. f \<in> set members)"
    then obtain g ms f where r: "(g, ms) \<in> set groups" "s \<in> set ms" "f \<in> set fs" "f \<in> set ms"
      by blast
    have "stg s = Some g" "stg f = Some g"
      unfolding stg_def student_to_group_of_Some [OF assms(3)] using r by blast+
    with r(3) show "stg s \<noteq> None \<and> (\<exists>f\<in>set fs. stg f = stg s)" by auto
  qed
  have t: "length (filter (\<lambda>x. stg (fst x) \<noteq> None) ?p)
      = card {s \<in> fst ` set ?p. s \<in> set (concat (map snd groups))}"
    using length_filter_keys [OF assms(1), of "\<lambda>s fs. stg s \<noteq> None"]
    by (simp only: A)
  have c: "length (filter (\<lambda>x. stg (fst x) \<noteq> None
                            \<and> (\<exists>f\<in>set (snd x). stg f = stg (fst x))) ?p)
      = card {s \<in> fst ` set ?p. \<exists>(g, members) \<in> set groups. s \<in> set members
                         \<and> (\<exists>f \<in> set (dict_get ?p s []). f \<in> set members)}"
    using length_filter_keys [OF assms(1),
        of "\<lambda>s fs. stg s \<noteq> None \<and> (\<exists>f\<in>set fs. stg f = stg s)"]
    by (simp only: B)
  define tot where "tot = card {s \<in> fst ` set ?p. s \<in> set (concat (map snd groups))}"
  define suc where "suc = card {s \<in> fst ` set ?p.
                       \<exists>(g, members) \<in> set groups. s \<in> set members
                         \<and> (\<exists>f \<in> set (dict_get ?p s []). f \<in> set members)}"
  have cf': "count_friends stg ?p (0, 0) = (tot, suc)"
    unfolding cf t c tot_def suc_def by (rule refl)
  have ev: "evaluate_friend_success groups ?p
      = (if tot = 0 then 0 else float_mul (float_div (of_nat suc) (of_nat tot)) 100, suc, tot)"
    unfolding evaluate_friend_success_def Let_def stg_def [symmetric] cf' by simp
  have err: "\<bar>fst (evaluate_friend_success groups ?p) - 100 * of_nat suc / of_nat tot\<bar>
      \<le> (100 * of_nat suc / of_nat tot) / 2 ^ 51" if "0 < tot" "tot \<le> 2 ^ 1022"
    unfolding ev using float_percent_error [OF that, of suc] that(1) by simp
  have gen: "(let total' = card {s \<in> fst ` set ?p. s \<in> set (concat (map snd groups))};
           success = card {s \<in> fst ` set ?p.
                       \<exists>(g, members) \<in> set groups. s \<in> set members
                         \<and> (\<exists>f \<in> set (dict_get ?p s []). f \<in> set members)};
           percent = fst (evaluate_friend_success groups ?p)
       in evaluate_friend_success groups ?p
            = (if total' = 0 then 0
               else float_mul (float_div (of_nat success) (of_nat total')) 100, success, total')
          \<and> (0 < total' \<and> total' \<le> 2 ^ 1022
               \<longrightarrow> \<bar>percent - 100 * of_nat success / of_nat total'\<bar>
                     \<le> (100 * of_nat success / of_nat total') / 2 ^ 51))"
    unfolding Let_def tot_def [symmetric] suc_def [symmetric] using ev err by blast
  have fixture: "evaluate_friend_success
        [(''G1'', [''A'', ''B'']), (''G2'', [''C'', ''D''])]
        [(''A'', [''B'']), (''B'', [''A'']), (''C'', [''D'']), (''D'', [])] = (75, 3, 4)"
    by code_simp
  from gen fixture show ?thesis by (rule conjI)
qed

theorem evaluate_friend_success_float_witness:
  "distinct (map fst [(''A'', [''B'']), (''B'', [''Z'']), (''C'', []), (''D'', [''A''])])
   \<and> distinct (map fst [(''G1'', [''A'', ''B'']), (''G2'', [''C''])])
   \<and> distinct (concat (map snd [(''G1'', [''A'', ''B'']), (''G2'', [''C''])]))
   \<and> evaluate_friend_success [(''G1'', [''A'', ''B'']), (''G2'', [''C''])]
        [(''A'', [''B'']), (''B'', [''Z'']), (''C'', []), (''D'', [''A''])]
       = (2345624805922133 / 70368744177664, 1, 3)
   \<and> card {s \<in> fst ` set [(''A'', [''B'']), (''B'', [''Z'']), (''C'', []), (''D'', [''A''])].
             s \<in> set (concat (map snd [(''G1'', [''A'', ''B'']), (''G2'', [''C''])]))} = 3
   \<and> \<bar>2345624805922133 / 70368744177664 - 100 * of_nat 1 / of_nat 3 :: rat\<bar>
       \<le> (100 * of_nat 1 / of_nat 3) / 2 ^ 51"
proof -
  let ?p = "[(''A'', [''B'']), (''B'', [''Z'']), (''C'', []), (''D'', [''A''])]"
  let ?g = "[(''G1'', [''A'', ''B'']), (''G2'', [''C''])]"
  have h1: "distinct (map fst ?p)" by simp
  have h2: "distinct (map fst ?g)" by simp
  have h3: "distinct (concat (map snd ?g))" by simp
  have e: "evaluate_friend_success ?g ?p = (2345624805922133 / 70368744177664, 1, 3)"
    by code_simp
  from evaluate_friend_success_float [OF h1 h2 h3]
  have c: "card {s \<in> fst ` set ?p. s \<in> set (concat (map snd ?g))} = 3"
    and b: "0 < (3::nat) \<and> (3::nat) \<le> 2 ^ 1022
      \<longrightarrow> \<bar>2345624805922133 / 70368744177664 - 100 * of_nat 1 / of_nat 3 :: rat\<bar>
         \<le> (100 * of_nat 1 / of_nat 3) / 2 ^ 51"
    unfolding Let_def e by (simp_all split: if_splits)
  have "(3::nat) \<le> 2 ^ 1022" by simp
  with b have "\<bar>2345624805922133 / 70368744177664 - 100 * of_nat 1 / of_nat 3 :: rat\<bar>
         \<le> (100 * of_nat 1 / of_nat 3) / 2 ^ 51" by simp
  with h1 h2 h3 e c show ?thesis by blast
qed


section \<open>Preferences that name someone outside the population\<close>

text \<open>
  Claim C8. For every preference mapping, also one that names individuals who are not in
  the population, assignment raises nothing (evaluation has no operation that can
  raise: each dictionary read is guarded by a membership test), and the names from
  outside have no effect: they add nothing to a group's friend score, and removing them
  from the mapping changes neither the assignment nor the evaluation of a partition of
  population members.
\<close>

theorem unknown_friends_have_no_effect:
  assumes "mset (shuffle students) = mset students"
  shows "(\<exists>groups. assign_students_to_groups shuffle students student_to_friends num_groups
            = Inr (groups, shuffle students))
    \<and> assign_students_to_groups shuffle students (known_friends students student_to_friends)
          num_groups
        = assign_students_to_groups shuffle students student_to_friends num_groups
    \<and> (set members \<subseteq> set students \<longrightarrow>
          friend_score (known_friends students student_to_friends) student members
            = friend_score student_to_friends student members)
    \<and> (set (concat (map snd part)) \<subseteq> set students \<longrightarrow>
          evaluate_friend_success part (known_friends students student_to_friends)
            = evaluate_friend_success part student_to_friends)"
proof -
  have "set (shuffle students) \<subseteq> set students"
    using mset_eq_setD [OF assms] by simp
  from assign_known [where shuffle = shuffle and students = students, OF this]
    assign_no_error [of shuffle students student_to_friends num_groups]
  show ?thesis
    by (simp add: friend_score_known evaluate_known del: set_concat)
qed

theorem unknown_friends_have_no_effect_witness:
  "mset (rev [''A'', ''B'']) = mset [''A'', ''B'']
   \<and> known_friends [''A'', ''B''] [(''A'', [''Z'', ''B'']), (''B'', [''Y''])]
       = [(''A'', [''B'']), (''B'', [])]
   \<and> assign_students_to_groups rev [''A'', ''B''] [(''A'', [''Z'', ''B'']), (''B'', [''Y''])] 2
       = Inr ([(''Group1'', [''B'', ''A'']), (''Group2'', [])], [''B'', ''A''])
   \<and> assign_students_to_groups rev [''A'', ''B''] [(''A'', [''B'']), (''B'', [])] 2
       = Inr ([(''Group1'', [''B'', ''A'']), (''Group2'', [])], [''B'', ''A''])
   \<and> evaluate_friend_success [(''Group1'', [''B'', ''A'']), (''Group2'', [])]
        [(''A'', [''Z'', ''B'']), (''B'', [''Y''])] = (50, 1, 2)
   \<and> evaluate_friend_success [(''Group1'', [''B'', ''A'']), (''Group2'', [])]
        [(''A'', [''B'']), (''B'', [])] = (50, 1, 2)"
proof -
  have h: "mset (rev [''A'', ''B'']) = mset [''A'', ''B'']" by simp
  have k: "known_friends [''A'', ''B''] [(''A'', [''Z'', ''B'']), (''B'', [''Y''])]
       = [(''A'', [''B'']), (''B'', [])]"
    by code_simp
  have a: "assign_students_to_groups rev [''A'', ''B''] [(''A'', [''Z'', ''B'']), (''B'', [''Y''])] 2
       = Inr ([(''Group1'', [''B'', ''A'']), (''Group2'', [])], [''B'', ''A''])"
    by code_simp
  have e: "evaluate_friend_success [(''Group1'', [''B'', ''A'']), (''Group2'', [])]
        [(''A'', [''Z'', ''B'']), (''B'', [''Y''])] = (50, 1, 2)"
    by code_simp
  have s: "set (concat (map snd [(''Group1'', [''B'', ''A'']), (''Group2'', [])]))
      \<subseteq> set [''A'', ''B'']" by simp
  from unknown_friends_have_no_effect [where shuffle = rev and students = "[''A'', ''B'']"
      and student_to_friends = "[(''A'', [''Z'', ''B'']), (''B'', [''Y''])]" and num_groups = 2
      and part = "[(''Group1'', [''B'', ''A'']), (''Group2'', [])]", OF h]
  have "assign_students_to_groups rev [''A'', ''B'']
          (known_friends [''A'', ''B''] [(''A'', [''Z'', ''B'']), (''B'', [''Y''])]) 2
        = assign_students_to_groups rev [''A'', ''B''] [(''A'', [''Z'', ''B'']), (''B'', [''Y''])] 2"
    and "evaluate_friend_success [(''Group1'', [''B'', ''A'']), (''Group2'', [])]
          (known_friends [''A'', ''B''] [(''A'', [''Z'', ''B'']), (''B'', [''Y''])])
        = evaluate_friend_success [(''Group1'', [''B'', ''A'']), (''Group2'', [])]
            [(''A'', [''Z'', ''B'']), (''B'', [''Y''])]"
    using s by blast+
  with h k a e show ?thesis by simp
qed


section \<open>Facts about the trials and the loop of the search driver\<close>

text \<open>
  The record that \<open>keep_best\<close> stores when the new trial wins.
\<close>

definition values_of ::
  "rat \<times> 'a groups \<times> 'a friends \<times> nat \<times> nat \<Rightarrow> 'a values_dict" where
  "values_of curr_values =
     (case curr_values of (percent, groups, student_to_friends, success, total') \<Rightarrow>
        \<lparr>d_total = total', d_success = success, d_percent = percent,
         d_groups = Some groups, d_student_to_friends = Some student_to_friends\<rparr>)"

lemma keep_best_eq:
  "keep_best mx c = (if fst c > d_percent mx then values_of c else mx)"
  by (cases c) (simp add: keep_best_def values_of_def)

lemma d_percent_values_of: "d_percent (values_of c) = fst c"
  by (cases c) (simp add: values_of_def)

lemma d_groups_values_of: "d_groups (values_of c) \<noteq> None"
  by (cases c) (simp add: values_of_def)

lemma d_percent_initial: "d_percent initial_values = 0"
  by (simp add: initial_values_def)

lemma run_trials_append:
  "run_trials tr (xs @ [i]) mx =
     (case run_trials tr xs mx of
        Inl e \<Rightarrow> Inl e
      | Inr b \<Rightarrow> (case tr i of Inl e \<Rightarrow> Inl e | Inr c \<Rightarrow> Inr (keep_best b c)))"
  by (induction xs arbitrary: mx) (auto split: sum.splits)

lemma run_trials_upto:
  assumes "\<forall>i<k. tr i = Inr (res i)"
  shows "\<exists>b. run_trials tr [0..<k] initial_values = Inr b
     \<and> (\<forall>i<k. fst (res i) \<le> d_percent b)
     \<and> ((\<forall>i<k. fst (res i) \<le> 0) \<and> b = initial_values
        \<or> (\<exists>i<k. b = values_of (res i) \<and> (\<forall>j<i. fst (res j) < fst (res i))
              \<and> (\<forall>j<k. fst (res j) \<le> fst (res i))))"
  using assms
proof (induction k)
  case 0
  then show ?case by simp
next
  case (Suc k)
  then obtain b where b: "run_trials tr [0..<k] initial_values = Inr b"
    and le: "\<forall>i<k. fst (res i) \<le> d_percent b"
    and d: "(\<forall>i<k. fst (res i) \<le> 0) \<and> b = initial_values
        \<or> (\<exists>i<k. b = values_of (res i) \<and> (\<forall>j<i. fst (res j) < fst (res i))
              \<and> (\<forall>j<k. fst (res j) \<le> fst (res i)))"
    by auto
  have tk: "tr k = Inr (res k)" using Suc.prems by simp
  have run: "run_trials tr [0..<Suc k] initial_values = Inr (keep_best b (res k))"
    using b tk by (simp add: run_trials_append)
  show ?case
  proof (cases "fst (res k) > d_percent b")
    case True
    then have kb: "keep_best b (res k) = values_of (res k)" by (simp add: keep_best_eq)
    have lt: "\<forall>j<k. fst (res j) < fst (res k)" using le True by force
    then have le': "\<forall>j<Suc k. fst (res j) \<le> fst (res k)"
      by (auto simp: less_Suc_eq intro: less_imp_le)
    have "\<exists>i<Suc k. values_of (res k) = values_of (res i) \<and> (\<forall>j<i. fst (res j) < fst (res i))
              \<and> (\<forall>j<Suc k. fst (res j) \<le> fst (res i))"
      using lt le' by (intro exI [of _ k]) simp
    with run kb le' show ?thesis by (simp add: d_percent_values_of)
  next
    case False
    then have kb: "keep_best b (res k) = b" by (simp add: keep_best_eq)
    have le': "\<forall>i<Suc k. fst (res i) \<le> d_percent b"
      using le False by (auto simp: less_Suc_eq)
    from d have "(\<forall>i<Suc k. fst (res i) \<le> 0) \<and> b = initial_values
        \<or> (\<exists>i<Suc k. b = values_of (res i) \<and> (\<forall>j<i. fst (res j) < fst (res i))
              \<and> (\<forall>j<Suc k. fst (res j) \<le> fst (res i)))"
    proof
      assume a: "(\<forall>i<k. fst (res i) \<le> 0) \<and> b = initial_values"
      with False have "fst (res k) \<le> 0" by (simp add: d_percent_initial)
      with a have "(\<forall>i<Suc k. fst (res i) \<le> 0) \<and> b = initial_values"
        by (auto simp: less_Suc_eq)
      then show ?thesis ..
    next
      assume "\<exists>i<k. b = values_of (res i) \<and> (\<forall>j<i. fst (res j) < fst (res i))
              \<and> (\<forall>j<k. fst (res j) \<le> fst (res i))"
      then obtain i where i: "i < k" "b = values_of (res i)"
        "\<forall>j<i. fst (res j) < fst (res i)" "\<forall>j<k. fst (res j) \<le> fst (res i)" by blast
      from False i(2) have "fst (res k) \<le> fst (res i)" by (simp add: d_percent_values_of)
      with i(4) have "\<forall>j<Suc k. fst (res j) \<le> fst (res i)" by (auto simp: less_Suc_eq)
      with i have "\<exists>i<Suc k. b = values_of (res i) \<and> (\<forall>j<i. fst (res j) < fst (res i))
              \<and> (\<forall>j<Suc k. fst (res j) \<le> fst (res i))"
        by (intro exI [of _ i]) simp
      then show ?thesis ..
    qed
    with run kb le' show ?thesis by simp
  qed
qed

lemma evaluate_percent_nonneg: "0 \<le> fst (evaluate_friend_success groups p)"
  by (simp add: evaluate_friend_success_def Let_def float_mul_def float_div_def
        float_round_nonneg split: prod.splits)

lemma run_smart_assignment_result:
  assumes "num_groups \<noteq> 0"
  shows "\<exists>groups b. assign_students_to_groups shuffle2 (shuffle1 students) p num_groups
        = Inr (groups, shuffle2 (shuffle1 students))
     \<and> balance_groups groups (int (length (shuffle2 (shuffle1 students))) div num_groups) = Inr b
     \<and> mset (concat (map snd b)) = mset (concat (map snd groups))
     \<and> run_smart_assignment shuffle1 shuffle2 (students, p) num_groups
        = Inr (fst (evaluate_friend_success b p), b, p,
               fst (snd (evaluate_friend_success b p)), snd (snd (evaluate_friend_success b p)))"
proof -
  from assign_no_error [of shuffle2 "shuffle1 students" p num_groups] obtain groups where
    g: "assign_students_to_groups shuffle2 (shuffle1 students) p num_groups
        = Inr (groups, shuffle2 (shuffle1 students))" by blast
  from balance_groups_result [of groups "int (length (shuffle2 (shuffle1 students))) div num_groups"]
  obtain b where b:
    "balance_groups groups (int (length (shuffle2 (shuffle1 students))) div num_groups) = Inr b"
    "mset (concat (map snd b)) = mset (concat (map snd groups))" by blast
  have "run_smart_assignment shuffle1 shuffle2 (students, p) num_groups
        = Inr (fst (evaluate_friend_success b p), b, p,
               fst (snd (evaluate_friend_success b p)), snd (snd (evaluate_friend_success b p)))"
    using g b(1) assms
    by (simp add: run_smart_assignment_def Let_def split: prod.splits)
  with g b show ?thesis by blast
qed

lemma trial_result:
  assumes "num_groups \<noteq> 0"
  shows "\<exists>r. trial rnd loaded num_groups i = Inr r \<and> 0 \<le> fst r"
proof -
  obtain students p where l: "loaded = (students, p)" by (cases loaded)
  from run_smart_assignment_result [OF assms, of "rnd (2 * i + 1)" "rnd (2 * i)" students p]
  show ?thesis unfolding trial_def l by (auto simp: evaluate_percent_nonneg)
qed

lemma assign_loop_no_groups: "assign_loop p students ([], stg) = Inr ([], stg)"
  by (induction students) auto

lemma count_friends_nobody:
  "(\<forall>s. stg s = None) \<Longrightarrow> count_friends stg p (t, c) = (t, c)"
  by (induction p) auto

lemma evaluate_nobody:
  assumes "concat (map snd groups) = []"
  shows "evaluate_friend_success groups p = (0, 0, 0)"
proof -
  have "dom (student_to_group_of groups) = {}"
    by (simp only: dom_student_to_group_of assms) simp
  then have "\<forall>s. student_to_group_of groups s = None" by auto
  from count_friends_nobody [OF this] show ?thesis
    by (simp add: evaluate_friend_success_def)
qed

lemma run_trials_all_zero:
  "(\<forall>i\<in>set is. \<exists>g q. tr i = Inr (0, g, q, 0, 0)) \<Longrightarrow>
     run_trials tr is initial_values = Inr initial_values"
proof (induction "is")
  case Nil
  then show ?case by simp
next
  case (Cons i "is")
  then obtain g q where "tr i = Inr (0, g, q, 0, 0)" by auto
  moreover have "keep_best initial_values (0, g, q, 0, 0) = initial_values"
    by (simp add: keep_best_eq d_percent_initial)
  ultimately show ?case using Cons by simp
qed


section \<open>The best-so-far record of the search driver\<close>

text \<open>
  Claim C5. Across the trials of \<open>run_n_times\<close> (with a group count other than zero,
  so that every trial returns), the best-so-far record after the loop has a percentage
  that is at least the percentage of every trial and, when there is at least one trial,
  equals the maximum percentage observed. The record is replaced only when a new
  trial's percentage strictly exceeds the stored one, so the record is that of the first
  trial to reach the maximum: every earlier trial scored strictly less, and later trials
  with the same score did not replace it. When no trial scores above 0, the stored
  percentage 0 is never exceeded and the record keeps its initial values.
\<close>

theorem best_so_far_record:
  assumes "num_groups \<noteq> 0"
  shows "\<exists>res best.
      (\<forall>i < nat n. trial rnd loaded num_groups i = Inr (res i))
    \<and> run_n_times_loop rnd loaded num_groups n = Inr best
    \<and> (\<forall>i < nat n. fst (res i) \<le> d_percent best)
    \<and> (0 < n \<longrightarrow> d_percent best = Max ((\<lambda>i. fst (res i)) ` {..<nat n}))
    \<and> ((\<forall>i < nat n. fst (res i) = 0) \<and> best = initial_values
        \<or> (\<exists>i < nat n. best = values_of (res i) \<and> (\<forall>j<i. fst (res j) < fst (res i))))
    \<and> (\<forall>max_values curr_values.
          keep_best max_values curr_values \<noteq> max_values
            \<longrightarrow> d_percent max_values < fst curr_values)"
proof -
  have "\<forall>i. \<exists>r. trial rnd loaded num_groups i = Inr r \<and> 0 \<le> fst r"
    using trial_result [OF assms] by blast
  then obtain res where res: "\<And>i. trial rnd loaded num_groups i = Inr (res i)"
    and nonneg: "\<And>i. 0 \<le> fst (res i)"
    by metis
  let ?k = "nat n"
  from run_trials_upto [of ?k "trial rnd loaded num_groups" res] res
  obtain b where b: "run_trials (trial rnd loaded num_groups) [0..<?k] initial_values = Inr b"
    and le: "\<forall>i<?k. fst (res i) \<le> d_percent b"
    and d: "(\<forall>i<?k. fst (res i) \<le> 0) \<and> b = initial_values
        \<or> (\<exists>i<?k. b = values_of (res i) \<and> (\<forall>j<i. fst (res j) < fst (res i))
              \<and> (\<forall>j<?k. fst (res j) \<le> fst (res i)))"
    by auto
  have loop: "run_n_times_loop rnd loaded num_groups n = Inr b"
    using b by (simp add: run_n_times_loop_def)
  have first: "(\<forall>i < ?k. fst (res i) = 0) \<and> b = initial_values
        \<or> (\<exists>i < ?k. b = values_of (res i) \<and> (\<forall>j<i. fst (res j) < fst (res i)))"
    using d nonneg by (auto simp: order.antisym)
  have mx: "d_percent b = Max ((\<lambda>i. fst (res i)) ` {..<?k})" if "0 < n"
  proof -
    have k: "0 < ?k" using that by simp
    have fin: "finite ((\<lambda>i. fst (res i)) ` {..<?k})" by simp
    have ub: "\<And>y. y \<in> (\<lambda>i. fst (res i)) ` {..<?k} \<Longrightarrow> y \<le> d_percent b"
      using le by auto
    have mem: "d_percent b \<in> (\<lambda>i. fst (res i)) ` {..<?k}"
      using d
    proof
      assume a: "(\<forall>i<?k. fst (res i) \<le> 0) \<and> b = initial_values"
      then have "fst (res 0) = 0" using k nonneg [of 0] by (simp add: order.antisym)
      with a k show ?thesis by (auto simp: d_percent_initial image_iff intro: bexI [of _ 0])
    next
      assume "\<exists>i<?k. b = values_of (res i) \<and> (\<forall>j<i. fst (res j) < fst (res i))
              \<and> (\<forall>j<?k. fst (res j) \<le> fst (res i))"
      then obtain i where "i < ?k" "b = values_of (res i)" by blast
      then show ?thesis by (auto simp: d_percent_values_of)
    qed
    from Max_eqI [OF fin ub mem] show ?thesis by simp
  qed
  have step: "\<forall>max_values curr_values.
          keep_best max_values curr_values \<noteq> max_values
            \<longrightarrow> d_percent max_values < fst (curr_values :: rat \<times> 'b groups \<times> 'b friends \<times> nat \<times> nat)"
    by (simp add: keep_best_eq)
  from res loop le mx first step show ?thesis by blast
qed

theorem best_so_far_record_witness:
  "(2::int) \<noteq> 0
   \<and> map (trial (\<lambda>k. if k = 2 then rev else if k = 4 then rotate1 else (\<lambda>xs. xs))
            ([''A'', ''B'', ''C''], [(''A'', [''B'']), (''B'', []), (''C'', [])]) 2) [0, 1, 2, 3]
     = [Inr (0, [(''Group1'', [''A'', ''C'']), (''Group2'', [''B''])],
             [(''A'', [''B'']), (''B'', []), (''C'', [])], 0, 3),
        Inr (2345624805922133 / 70368744177664, [(''Group1'', [''C'']), (''Group2'', [''B'', ''A''])],
             [(''A'', [''B'']), (''B'', []), (''C'', [])], 1, 3),
        Inr (2345624805922133 / 70368744177664, [(''Group1'', [''B'', ''A'']), (''Group2'', [''C''])],
             [(''A'', [''B'']), (''B'', []), (''C'', [])], 1, 3),
        Inr (0, [(''Group1'', [''A'', ''C'']), (''Group2'', [''B''])],
             [(''A'', [''B'']), (''B'', []), (''C'', [])], 0, 3)]
   \<and> run_n_times_loop (\<lambda>k. if k = 2 then rev else if k = 4 then rotate1 else (\<lambda>xs. xs))
        ([''A'', ''B'', ''C''], [(''A'', [''B'']), (''B'', []), (''C'', [])]) 2 4
     = Inr \<lparr>d_total = 3, d_success = 1, d_percent = 2345624805922133 / 70368744177664,
            d_groups = Some [(''Group1'', [''C'']), (''Group2'', [''B'', ''A''])],
            d_student_to_friends = Some [(''A'', [''B'']), (''B'', []), (''C'', [])]\<rparr>"
proof -
  have h: "(2::int) \<noteq> 0" by simp
  have t: "map (trial (\<lambda>k. if k = 2 then rev else if k = 4 then rotate1 else (\<lambda>xs. xs))
            ([''A'', ''B'', ''C''], [(''A'', [''B'']), (''B'', []), (''C'', [])]) 2) [0, 1, 2, 3]
     = [Inr (0, [(''Group1'', [''A'', ''C'']), (''Group2'', [''B''])],
             [(''A'', [''B'']), (''B'', []), (''C'', [])], 0, 3),
        Inr (2345624805922133 / 70368744177664, [(''Group1'', [''C'']), (''Group2'', [''B'', ''A''])],
             [(''A'', [''B'']), (''B'', []), (''C'', [])], 1, 3),
        Inr (2345624805922133 / 70368744177664, [(''Group1'', [''B'', ''A'']), (''Group2'', [''C''])],
             [(''A'', [''B'']), (''B'', []), (''C'', [])], 1, 3),
        Inr (0, [(''Group1'', [''A'', ''C'']), (''Group2'', [''B''])],
             [(''A'', [''B'']), (''B'', []), (''C'', [])], 0, 3)]"
    by code_simp
  have e: "run_n_times_loop (\<lambda>k. if k = 2 then rev else if k = 4 then rotate1 else (\<lambda>xs. xs))
        ([''A'', ''B'', ''C''], [(''A'', [''B'']), (''B'', []), (''C'', [])]) 2 4
     = Inr \<lparr>d_total = 3, d_success = 1, d_percent = 2345624805922133 / 70368744177664,
            d_groups = Some [(''Group1'', [''C'']), (''Group2'', [''B'', ''A''])],
            d_student_to_friends = Some [(''A'', [''B'']), (''B'', []), (''C'', [])]\<rparr>"
    by code_simp
  from best_so_far_record [where num_groups = 2 and n = 4
      and rnd = "\<lambda>k. if k = 2 then rev else if k = 4 then rotate1 else (\<lambda>xs. xs)"
      and loaded = "([''A'', ''B'', ''C''], [(''A'', [''B'']), (''B'', []), (''C'', [])])", OF h]
  have "\<exists>best. run_n_times_loop (\<lambda>k. if k = 2 then rev else if k = 4 then rotate1 else (\<lambda>xs. xs))
        ([''A'', ''B'', ''C''], [(''A'', [''B'']), (''B'', []), (''C'', [])]) 2 4 = Inr best"
    by blast
  with h t e show ?thesis by simp
qed

section \<open>Group counts and trial counts that are not positive\<close>

text \<open>
  Claim C7, as stated: a non-positive group count or a trial count of zero makes the
  pipeline fail fast with a descriptive invalid-configuration error. This fails: with
  the group count \<open>-1\<close> a trial raises nothing and returns an empty partition with
  0 of 0 students, and with the trial count 0 the loop of \<open>run_n_times\<close> ends with the
  initial record.
\<close>

theorem invalid_configuration_counterexample:
  "run_smart_assignment (\<lambda>xs. xs) (\<lambda>xs. xs)
     ([''A'', ''B''], [(''A'', [''B'']), (''B'', [])]) (- 1)
     = Inr (0, [], [(''A'', [''B'']), (''B'', [])], 0, 0)
   \<and> run_n_times_loop (\<lambda>k xs. xs) ([''A'', ''B''], [(''A'', [''B'']), (''B'', [])]) 9 0
     = Inr \<lparr>d_total = 0, d_success = 0, d_percent = 0, d_groups = None,
            d_student_to_friends = None\<rparr>"
  by code_simp

text \<open>
  Claim C7, amended: the code has no check of its configuration. A group count of zero
  makes every trial raise \<open>ZeroDivisionError\<close>, at the division for the target size
  and after the assignment has run; a negative group count raises nothing in a trial,
  which returns an empty partition with percentage 0, 0 successes and total 0; a trial
  count of zero or less makes the loop run no trial and leave the best-so-far record at
  its initial values.
\<close>

theorem invalid_configuration_behaviour:
  "(num_groups = 0 \<longrightarrow>
      run_smart_assignment shuffle1 shuffle2 loaded num_groups = Inl ZeroDivisionError)
   \<and> (num_groups < 0 \<longrightarrow>
      run_smart_assignment shuffle1 shuffle2 loaded num_groups
        = Inr (0, [], snd loaded, 0, 0))
   \<and> (n \<le> 0 \<longrightarrow> run_n_times_loop rnd loaded num_groups n = Inr initial_values)"
proof -
  obtain students p where l: "loaded = (students, p)" by (cases loaded)
  have z: "run_smart_assignment shuffle1 shuffle2 loaded num_groups = Inl ZeroDivisionError"
    if "num_groups = 0"
    using assign_no_error [of shuffle2 "shuffle1 students" p num_groups] that
    by (auto simp: run_smart_assignment_def l Let_def)
  have neg: "run_smart_assignment shuffle1 shuffle2 loaded num_groups
        = Inr (0, [], snd loaded, 0, 0)" if "num_groups < 0"
  proof -
    have i: "(init_groups num_groups :: 'a groups) = []"
      using that by (simp add: init_groups_def)
    have a: "assign_students_to_groups shuffle2 (shuffle1 students) p num_groups
        = Inr ([], shuffle2 (shuffle1 students))"
      by (simp add: assign_students_to_groups_def i assign_loop_no_groups)
    have bi: "balance_iteration [] ([] :: 'a groups) T = Inr None" for T
      by (simp add: balance_iteration_def)
    have b: "balance_groups ([] :: 'a groups) T = Inr []" for T
      unfolding balance_groups_def by (subst balance_loop.simps) (simp add: bi)
    have e: "evaluate_friend_success ([] :: 'a groups) p = (0, 0, 0)"
      by (rule evaluate_nobody) simp
    from a b e that show ?thesis
      by (simp add: run_smart_assignment_def l Let_def)
  qed
  have n0: "run_n_times_loop rnd loaded num_groups n = Inr initial_values" if "n \<le> 0"
    using that by (simp add: run_n_times_loop_def)
  from z neg n0 show ?thesis by blast
qed

theorem invalid_configuration_behaviour_witness:
  "run_smart_assignment rev rev ([''A'', ''B'', ''C''], [(''A'', [''B''])]) 0
     = Inl ZeroDivisionError
   \<and> (- 3 :: int) < 0
   \<and> run_smart_assignment rev rev ([''A'', ''B'', ''C''], [(''A'', [''B''])]) (- 3)
     = Inr (0, [], [(''A'', [''B''])], 0, 0)
   \<and> (0::int) \<le> 0
   \<and> run_n_times_loop (\<lambda>k. rev) ([''A'', ''B'', ''C''], [(''A'', [''B''])]) 9 0
     = Inr initial_values"
proof -
  have 1: "run_smart_assignment rev rev ([''A'', ''B'', ''C''], [(''A'', [''B''])]) 0
     = Inl ZeroDivisionError"
    using invalid_configuration_behaviour
      [of 0 rev rev "([''A'', ''B'', ''C''], [(''A'', [''B''])])"]
    by simp
  have 2: "run_smart_assignment rev rev ([''A'', ''B'', ''C''], [(''A'', [''B''])]) (- 3)
     = Inr (0, [], [(''A'', [''B''])], 0, 0)"
    using invalid_configuration_behaviour
      [of "- 3" rev rev "([''A'', ''B'', ''C''], [(''A'', [''B''])])"]
    by simp
  have 3: "run_n_times_loop (\<lambda>k. rev) ([''A'', ''B'', ''C''], [(''A'', [''B''])]) 9 0
     = Inr initial_values"
    using invalid_configuration_behaviour
      [of 9 _ _ "([''A'', ''B'', ''C''], [(''A'', [''B''])])" 0 "\<lambda>k. rev"]
    by simp
  from 1 2 3 show ?thesis by simp
qed

section \<open>The empty population\<close>

text \<open>
  Claim C9 says that with an empty population no trial fails, every trial evaluates to
  0 successes of 0, and the search driver still returns a partition with those metrics.
  The first two parts hold (for a group count other than zero). The last does not:
  every trial scores 0, the stored percentage starts at 0 and is replaced only by a
  strictly greater one, so no partition is ever stored, the record keeps
  \<open>groups = None\<close>, and the export that follows the loop raises \<open>AttributeError\<close>.
\<close>

theorem empty_population_stores_no_partition:
  assumes "\<forall>k. rnd k [] = []" and "num_groups \<noteq> 0"
  shows "(\<forall>i. \<exists>groups. trial rnd ([], p) num_groups i = Inr (0, groups, p, 0, 0))
    \<and> run_n_times_loop rnd ([], p) num_groups n = Inr initial_values
    \<and> d_groups (initial_values :: 'a values_dict) = None
    \<and> run_n_times rnd ([] :: 'a list, p) num_groups n = Inl AttributeError"
proof -
  have tr: "\<exists>groups. trial rnd ([], p) num_groups i = Inr (0, groups, p, 0, 0)" for i
  proof -
    have a: "assign_students_to_groups (rnd (2 * i + 1)) [] p num_groups
        = Inr (init_groups num_groups, [])"
      using assms(1) by (simp add: assign_students_to_groups_def)
    from balance_groups_result [of "init_groups num_groups :: 'a groups" "0 div num_groups"]
    obtain b where b: "balance_groups (init_groups num_groups :: 'a groups) (0 div num_groups)
          = Inr b"
      "mset (concat (map snd b)) = mset (concat (map snd (init_groups num_groups :: 'a groups)))"
      by blast
    have "concat (map snd b) = []"
      using b(2) by (simp only: init_groups_empty_members) simp
    then have e: "evaluate_friend_success b p = (0, 0, 0)" by (rule evaluate_nobody)
    from a b(1) e assms show ?thesis
      by (simp add: trial_def run_smart_assignment_def Let_def)
  qed
  then have loop: "run_n_times_loop rnd ([], p) num_groups n = Inr initial_values"
    unfolding run_n_times_loop_def by (intro run_trials_all_zero) blast
  have none: "d_groups (initial_values :: 'a values_dict) = None"
    by (simp add: initial_values_def)
  have "run_n_times rnd ([] :: 'a list, p) num_groups n = Inl AttributeError"
    by (simp add: run_n_times_def loop none export_rows_def)
  with tr loop none show ?thesis by blast
qed

theorem empty_population_stores_no_partition_witness:
  "(9::int) \<noteq> 0
   \<and> trial (\<lambda>k xs. xs) ([] :: string list, []) 9 0
     = Inr (0, [(''Group1'', []), (''Group2'', []), (''Group3'', []), (''Group4'', []),
                (''Group5'', []), (''Group6'', []), (''Group7'', []), (''Group8'', []),
                (''Group9'', [])], [], 0, 0)
   \<and> run_n_times_loop (\<lambda>k xs. xs) ([] :: string list, []) 9 50 = Inr initial_values
   \<and> run_n_times (\<lambda>k xs. xs) ([] :: string list, []) 9 50 = Inl AttributeError"
proof -
  have h1: "\<forall>k. (\<lambda>k xs. xs) k ([] :: string list) = []" by simp
  have h2: "(9::int) \<noteq> 0" by simp
  have t: "trial (\<lambda>k xs. xs) ([] :: string list, []) 9 0
     = Inr (0, [(''Group1'', []), (''Group2'', []), (''Group3'', []), (''Group4'', []),
                (''Group5'', []), (''Group6'', []), (''Group7'', []), (''Group8'', []),
                (''Group9'', [])], [], 0, 0)"
    by code_simp
  from empty_population_stores_no_partition [where rnd = "\<lambda>k xs. xs" and num_groups = 9
      and p = "[]" and n = 50, OF h1 h2]
  have "run_n_times_loop (\<lambda>k xs. xs) ([] :: string list, []) 9 50 = Inr initial_values"
    and "run_n_times (\<lambda>k xs. xs) ([] :: string list, []) 9 50 = Inl AttributeError"
    by blast+
  with h2 t show ?thesis by simp
qed


end
